theory Spec2Isabelle
  imports Main "HOL-Library.Word" "HOL-Library.AList"
begin

section \<open>The byte-pair compressor of \<open>compressor.py\<close>\<close>

text \<open>
  The class \<open>XIPCompressor\<close> compresses a byte string by repeatedly replacing its most
  frequent adjacent pair of bytes by a fresh byte, and appends the table of replacements.
  The model below follows \<open>compressor.py\<close> function by function.

  \<^item> A Python \<open>bytes\<close> object is a list of 8-bit words. The keys of the lookup table are
    \<open>bytes\<close> of length one and its values \<open>bytes\<close> of length two: a byte and a pair of bytes.
  \<^item> A Python \<open>dict\<close> keeps its keys in insertion order, and an assignment to a key that
    is present replaces the value in place: an association list with \<open>AList.update\<close>.
  \<^item> \<open>random.randbytes(1)\<close> is the only source of nondeterminism. The model takes the
    sequence of bytes the generator hands out during a call as a function \<open>rnd\<close> from the
    number of the draw to the byte drawn, and threads the number of the next draw.
  \<^item> \<open>__get_replacement\<close> and \<open>__get_original\<close> are recursive Python functions, and the
    interpreter raises \<open>RecursionError\<close> when the recursion is deeper than its limit. The
    parameter \<open>depth\<close> is the number of nested calls the interpreter still allows.
  \<^item> Exceptions are values: a function that may raise returns \<open>error + 'a\<close>.
  \<^item> Reading the file is outside the model: \<open>compress_binary\<close> takes the content of the file.
\<close>

type_synonym byte = "8 word"

type_synonym table = "(byte \<times> byte \<times> byte) list"

datatype error = TableExhausted | RecursionError | UnboundLocalError | OverflowError | IndexError

text \<open>
  The fields of the object. \<open>__init__\<close> sets \<open>__lookup_table\<close> to the empty dict and
  \<open>__raw_file_data\<close> to \<open>None\<close>; \<open>compress_binary\<close> assigns \<open>__raw_file_data\<close> before anything
  reads it, so its initial value is never observed and is modelled as the empty string.
\<close>

record XIPCompressor =
  lookup_table :: table
  raw_file_data :: "byte list"

definition init :: XIPCompressor where
  "init = \<lparr>lookup_table = [], raw_file_data = []\<rparr>"

subsection \<open>\<open>__get_replacement\<close>\<close>

text \<open>
  The result is the replacement byte and the number of the next draw. The test for an
  exhausted table is made again in every recursive call, as in the source.
\<close>

fun get_replacement :: "nat \<Rightarrow> (nat \<Rightarrow> byte) \<Rightarrow> XIPCompressor \<Rightarrow> nat \<Rightarrow> error + (byte \<times> nat)" where
  "get_replacement depth rnd self n =
     (let unique_byte_count = length (remdups (raw_file_data self)) in
      if int (length (lookup_table self)) = 256 - int unique_byte_count
      then Inl TableExhausted
      else
        let replacement = rnd n in
        if replacement \<in> set (map fst (lookup_table self))
           \<or> replacement \<in> set (raw_file_data self)
        then (case depth of
                0 \<Rightarrow> Inl RecursionError
              | Suc d \<Rightarrow> get_replacement d rnd self (Suc n))
        else Inr (replacement, Suc n))"

declare get_replacement.simps [simp del]

subsection \<open>\<open>__get_original\<close>\<close>

fun get_original :: "nat \<Rightarrow> byte \<Rightarrow> table \<Rightarrow> error + byte list" where
  "get_original depth b table =
     (case map_of table b of
        Some (c0, c1) \<Rightarrow>
          (case depth of
             0 \<Rightarrow> Inl RecursionError
           | Suc d \<Rightarrow>
               (case get_original d c0 table of
                  Inl e \<Rightarrow> Inl e
                | Inr b1 \<Rightarrow>
                    (case get_original d c1 table of
                       Inl e \<Rightarrow> Inl e
                     | Inr b2 \<Rightarrow> Inr (b1 @ b2))))
      | None \<Rightarrow> Inr [b])"

declare get_original.simps [simp del]

subsection \<open>\<open>__max_pair\<close>\<close>

text \<open>
  The loop over \<open>data.items()\<close>, with the two local variables it assigns. \<open>max_pair\<close> is
  unbound until the loop body has run once; returning it unbound raises
  \<open>UnboundLocalError\<close>.
\<close>

fun max_pair_loop :: "('k \<times> nat) list \<Rightarrow> nat \<Rightarrow> 'k option \<Rightarrow> nat \<times> 'k option" where
  "max_pair_loop [] max_freq max_pair = (max_freq, max_pair)"
| "max_pair_loop ((key, freq) # items) max_freq max_pair =
     (if freq \<ge> max_freq
      then max_pair_loop items freq (Some key)
      else max_pair_loop items max_freq max_pair)"

definition max_pair :: "('k \<times> nat) list \<Rightarrow> error + ('k \<times> nat)" where
  "max_pair data =
     (case max_pair_loop data 0 None of
        (max_freq, None) \<Rightarrow> Inl UnboundLocalError
      | (max_freq, Some p) \<Rightarrow> Inr (p, max_freq))"

subsection \<open>\<open>__reconstruct_dict\<close>\<close>

text \<open>
  \<open>data[0]\<close> raises \<open>IndexError\<close> on the empty string. The slice \<open>data[(-3 * byte_len):]\<close>
  is the last \<open>3 * byte_len\<close> bytes, all of \<open>data\<close> when it is shorter than that, and all
  of \<open>data\<close> when \<open>byte_len\<close> is 0 (the slice \<open>data[0:]\<close>). The loop reads three bytes of
  the chunk at each index of \<open>range(0, 3 * byte_len, 3)\<close>, and a read past the end of the
  chunk raises \<open>IndexError\<close>.
\<close>

fun reconstruct_loop :: "byte list \<Rightarrow> nat list \<Rightarrow> table \<Rightarrow> error + table" where
  "reconstruct_loop table_chunk [] table = Inr table"
| "reconstruct_loop table_chunk (i # is) table =
     (if i + 2 < length table_chunk
      then reconstruct_loop table_chunk is
             (AList.update (table_chunk ! i) (table_chunk ! (i + 1), table_chunk ! (i + 2)) table)
      else Inl IndexError)"

definition reconstruct_dict :: "byte list \<Rightarrow> error + table" where
  "reconstruct_dict data =
     (case data of
        [] \<Rightarrow> Inl IndexError
      | b0 # _ \<Rightarrow>
          let byte_len = unat b0;
              table_chunk = (if byte_len = 0 then data
                             else drop (length data - 3 * byte_len) data)
          in reconstruct_loop table_chunk (map (\<lambda>j. 3 * j) [0..<byte_len]) [])"

subsection \<open>\<open>compress_binary\<close>\<close>

text \<open>The pair-frequency dict of the inner \<open>for\<close> loop: the pairs at positions \<open>i, i + 1\<close>.\<close>

fun adjacent :: "'a list \<Rightarrow> ('a \<times> 'a) list" where
  "adjacent (first_iter # second_iter # rest) =
     (first_iter, second_iter) # adjacent (second_iter # rest)"
| "adjacent _ = []"

fun bump :: "'k \<Rightarrow> ('k \<times> nat) list \<Rightarrow> ('k \<times> nat) list" where
  "bump pair [] = [(pair, 1)]"
| "bump pair ((k, c) # pairs) =
     (if pair = k then (k, c + 1) # pairs else (k, c) # bump pair pairs)"

definition make_pairs :: "'a list \<Rightarrow> (('a \<times> 'a) \<times> nat) list" where
  "make_pairs compressed_data = foldl (\<lambda>pairs pair. bump pair pairs) [] (adjacent compressed_data)"

text \<open>
  \<open>bytes.replace(old, new)\<close> for an \<open>old\<close> of two bytes and a \<open>new\<close> of one: the matches are
  found from left to right and do not overlap.
\<close>

fun replace :: "'a list \<Rightarrow> 'a \<times> 'a \<Rightarrow> 'a \<Rightarrow> 'a list" where
  "replace (a # b # rest) old new =
     (if (a, b) = old then new # replace rest old new
      else a # replace (b # rest) old new)"
| "replace data old new = data"

text \<open>
  \<open>int.to_bytes()\<close> with its default length of one byte (the defaults of Python 3.11):
  \<open>OverflowError\<close> when the number does not fit.
\<close>

definition to_bytes :: "nat \<Rightarrow> error + byte" where
  "to_bytes k = (if k < 256 then Inr (of_nat k) else Inl OverflowError)"

text \<open>
  The state of the \<open>while\<close> loop: the object, \<open>compressed_data\<close>, \<open>last_pair_frequency\<close>
  and the number of the next random draw. The variable \<open>data_len\<close> is
  \<open>len(compressed_data)\<close> whenever it is read (it is assigned with \<open>compressed_data\<close> before
  the loop and at the end of its body), so the model reads the length of the list.

  One run of the loop body either leaves the loop (\<open>break\<close> after any exception of
  \<open>__get_replacement\<close>), raises, or completes with a new state.
\<close>

type_synonym loop_state = "XIPCompressor \<times> byte list \<times> nat \<times> nat"

datatype step = Break | Raise error | Continue loop_state

definition loop_body :: "nat \<Rightarrow> (nat \<Rightarrow> byte) \<Rightarrow> loop_state \<Rightarrow> step" where
  "loop_body depth rnd st =
     (case st of (self, compressed_data, last_pair_frequency, n) \<Rightarrow>
        let pairs = make_pairs compressed_data in
        case get_replacement depth rnd self n of
          Inl e \<Rightarrow> Break
        | Inr (replacement, n') \<Rightarrow>
            (case max_pair pairs of
               Inl e \<Rightarrow> Raise e
             | Inr (highest_occuring_pair, freq) \<Rightarrow>
                 Continue
                   (self\<lparr>lookup_table :=
                       AList.update replacement highest_occuring_pair (lookup_table self)\<rparr>,
                    replace compressed_data highest_occuring_pair replacement,
                    freq,
                    n')))"

function encode_loop :: "nat \<Rightarrow> (nat \<Rightarrow> byte) \<Rightarrow> loop_state \<Rightarrow> error + loop_state" where
  "encode_loop depth rnd (self, compressed_data, last_pair_frequency, n) =
     (if last_pair_frequency \<noteq> 1
      then
        (case loop_body depth rnd (self, compressed_data, last_pair_frequency, n) of
           Break \<Rightarrow> Inr (self, compressed_data, last_pair_frequency, n)
         | Raise e \<Rightarrow> Inl e
         | Continue st \<Rightarrow> encode_loop depth rnd st)
      else Inr (self, compressed_data, last_pair_frequency, n))"
  by pat_completeness auto

text \<open>
  The states in which the loop started in \<open>st0\<close> tests its condition: \<open>st0\<close> itself, and
  the state at the end of every run of the body that completes.
\<close>

inductive iterates :: "nat \<Rightarrow> (nat \<Rightarrow> byte) \<Rightarrow> loop_state \<Rightarrow> loop_state \<Rightarrow> bool"
  for depth :: nat and rnd :: "nat \<Rightarrow> byte" and st0 :: loop_state where
  start: "iterates depth rnd st0 st0"
| step: "iterates depth rnd st0 (self, compressed_data, last_pair_frequency, n)
         \<Longrightarrow> last_pair_frequency \<noteq> 1
         \<Longrightarrow> loop_body depth rnd (self, compressed_data, last_pair_frequency, n) = Continue st
         \<Longrightarrow> iterates depth rnd st0 st"

text \<open>
  The output: the number of table entries as one byte (\<open>OverflowError\<close> above 255), the
  compressed data, and the entries of the table in insertion order.
\<close>

definition serialize_table :: "table \<Rightarrow> byte list" where
  "serialize_table t = concat (map (\<lambda>(key, v0, v1). [key, v0, v1]) t)"

definition compress_binary ::
  "nat \<Rightarrow> (nat \<Rightarrow> byte) \<Rightarrow> XIPCompressor \<Rightarrow> byte list \<Rightarrow> error + (byte list \<times> XIPCompressor)" where
  "compress_binary depth rnd self file_data =
     (let self1 = self\<lparr>raw_file_data := file_data\<rparr> in
      case encode_loop depth rnd (self1, file_data, 0, 0) of
        Inl e \<Rightarrow> Inl e
      | Inr (self2, compressed_data, last_pair_frequency, n) \<Rightarrow>
          (case to_bytes (length (lookup_table self2)) of
             Inl e \<Rightarrow> Inl e
           | Inr replacement_length \<Rightarrow>
               Inr (replacement_length # compressed_data @ serialize_table (lookup_table self2),
                    self2)))"

subsection \<open>\<open>decompress_binary\<close>\<close>

fun decompress_loop :: "nat \<Rightarrow> byte list \<Rightarrow> table \<Rightarrow> nat list \<Rightarrow> byte list \<Rightarrow> error + byte list" where
  "decompress_loop depth compressed_bytes table [] decompressed_data = Inr decompressed_data"
| "decompress_loop depth compressed_bytes table (i # is) decompressed_data =
     (case get_original depth (compressed_bytes ! i) table of
        Inl e \<Rightarrow> Inl e
      | Inr original \<Rightarrow>
          decompress_loop depth compressed_bytes table is (decompressed_data @ original))"

text \<open>
  \<open>data_len\<close> is computed from the number of keys of the reconstructed dict, not from the
  first byte. The indices of \<open>range(1, data_len)\<close> are below the length of the input.
\<close>

definition decompress_binary :: "nat \<Rightarrow> byte list \<Rightarrow> error + byte list" where
  "decompress_binary depth compressed_bytes =
     (case reconstruct_dict compressed_bytes of
        Inl e \<Rightarrow> Inl e
      | Inr reconstruction_dict \<Rightarrow>
          let data_len = int (length compressed_bytes) - int (length reconstruction_dict) * 3
          in decompress_loop depth compressed_bytes reconstruction_dict [1..<nat data_len] [])"

section \<open>Notions of the specification and of the proofs\<close>

text \<open>
  The decoder of the specification, in its own words: the payload is the part of the
  artifact between offset 1 and the trailer, of length
  \<open>len(artifact) - 1 - 3 * entry_count\<close>; \<open>expand(o)\<close> is \<open>expand(c0) ++ expand(c1)\<close> when
  the table maps \<open>o\<close> to \<open>(c0, c1)\<close> and the single byte \<open>o\<close> otherwise; the result is the
  concatenation of the expansions of the bytes of the payload. \<open>spec_expand t o bs\<close> says
  that the expansion of \<open>o\<close> under the table \<open>t\<close> is defined and is \<open>bs\<close>.
\<close>

definition spec_payload :: "byte list \<Rightarrow> byte list" where
  "spec_payload artifact =
     (case artifact of
        [] \<Rightarrow> []
      | entry_count # rest \<Rightarrow> take (length rest - 3 * unat entry_count) rest)"

inductive spec_expand :: "table \<Rightarrow> byte \<Rightarrow> byte list \<Rightarrow> bool" for t :: table where
  literal: "map_of t b = None \<Longrightarrow> spec_expand t b [b]"
| code: "map_of t b = Some (c0, c1) \<Longrightarrow> spec_expand t c0 b0 \<Longrightarrow> spec_expand t c1 b1
         \<Longrightarrow> spec_expand t b (b0 @ b1)"

definition spec_decodes :: "byte list \<Rightarrow> byte list \<Rightarrow> bool" where
  "spec_decodes artifact result \<longleftrightarrow>
     (\<exists>t bss. reconstruct_dict artifact = Inr t
        \<and> list_all2 (spec_expand t) (spec_payload artifact) bss
        \<and> result = concat bss)"

text \<open>The distinct elements of a list, in the order of their first occurrences.\<close>

fun first_occurrences :: "'a list \<Rightarrow> 'a list" where
  "first_occurrences [] = []"
| "first_occurrences (x # xs) = x # first_occurrences (filter (\<lambda>y. y \<noteq> x) xs)"

text \<open>
  The invariant of the encoder loop for the raw input \<open>X\<close>, the table \<open>t\<close> and the buffer
  \<open>cd\<close>: the keys are pairwise distinct and are not bytes of \<open>X\<close>; the components of every
  entry and the bytes of the buffer are bytes of \<open>X\<close> or keys; \<open>__get_original\<close> expands
  each of these bytes within a recursion depth of the number of entries; and the
  expansions of the bytes of the buffer, concatenated, are \<open>X\<close>.
\<close>

definition encoder_invariant :: "byte list \<Rightarrow> table \<Rightarrow> byte list \<Rightarrow> bool" where
  "encoder_invariant X t cd \<longleftrightarrow>
     distinct (map fst t)
   \<and> fst ` set t \<inter> set X = {}
   \<and> (\<forall>e \<in> set t. fst (snd e) \<in> set X \<union> fst ` set t \<and> snd (snd e) \<in> set X \<union> fst ` set t)
   \<and> set cd \<subseteq> set X \<union> fst ` set t
   \<and> (\<forall>b \<in> set X \<union> fst ` set t. \<exists>bs. get_original (length t) b t = Inr bs)
   \<and> concat (map (\<lambda>b. projr (get_original (length t) b t)) cd) = X"

text \<open>
  Successive calls of \<open>compress_binary\<close> on one object, each with its random bytes and its
  input: every call starts from the object the call before it has left. The result is
  the object after the last call, and \<open>None\<close> when a call has raised.
\<close>

fun compress_calls ::
  "nat \<Rightarrow> XIPCompressor \<Rightarrow> ((nat \<Rightarrow> byte) \<times> byte list) list \<Rightarrow> XIPCompressor option" where
  "compress_calls depth self [] = Some self"
| "compress_calls depth self ((rnd, file_data) # calls) =
     (case compress_binary depth rnd self file_data of
        Inl e \<Rightarrow> None
      | Inr (artifact, self') \<Rightarrow> compress_calls depth self' calls)"

text \<open>
  The table of an object after 255 calls on the input \<open>AA\<close> (the byte 65 twice) whose
  draws were the bytes other than 65 in increasing order: each call adds one entry.
\<close>

definition stale_keys :: "byte list" where
  "stale_keys = map of_nat ([0..<65] @ [66..<256])"

definition stale_table :: table where
  "stale_table = map (\<lambda>c. (c, 65, 65)) stale_keys"

section \<open>Properties\<close>

subsection \<open>Termination of the encoder loop\<close>

text \<open>Every run of the loop body that completes makes the buffer shorter.\<close>

lemma max_pair_loop_mem:
  "max_pair_loop items mf mp = (f, Some p) \<Longrightarrow> mp = Some p \<or> p \<in> fst ` set items"
  by (induction items mf mp rule: max_pair_loop.induct) (auto split: if_splits)

lemma max_pair_mem: "max_pair data = Inr (p, f) \<Longrightarrow> p \<in> fst ` set data"
  by (auto simp: max_pair_def split: prod.splits option.splits dest: max_pair_loop_mem)

lemma fst_set_bump: "fst ` set (bump k d) = insert k (fst ` set d)"
  by (induction k d rule: bump.induct) auto

lemma fst_set_foldl_bump:
  "fst ` set (foldl (\<lambda>pairs pair. bump pair pairs) d ks) = fst ` set d \<union> set ks"
  by (induction ks arbitrary: d) (auto simp: fst_set_bump)

lemma fst_set_make_pairs: "fst ` set (make_pairs data) = set (adjacent data)"
  by (simp add: make_pairs_def fst_set_foldl_bump)

lemma length_replace_le: "length (replace data old new) \<le> length data"
  by (induction data old new rule: replace.induct) auto

lemma length_replace_less:
  "old \<in> set (adjacent data) \<Longrightarrow> length (replace data old new) < length data"
proof (induction data old new rule: replace.induct)
  case (1 a b rest old new)
  then show ?case
    using length_replace_le [of rest old new] by (auto simp: less_Suc_eq_le)
qed auto

lemma loop_body_shrinks:
  assumes "loop_body depth rnd (self, cd, lf, n) = Continue (self', cd', lf', n')"
  shows "length cd' < length cd"
proof -
  from assms obtain c p where mp: "max_pair (make_pairs cd) = Inr (p, lf')"
    and cd': "cd' = replace cd p c"
    by (auto simp: loop_body_def Let_def split: sum.splits prod.splits)
  from max_pair_mem [OF mp] have "p \<in> set (adjacent cd)"
    by (simp add: fst_set_make_pairs)
  then show ?thesis
    unfolding cd' by (rule length_replace_less)
qed

termination encode_loop
  by (relation "measure (\<lambda>(depth, rnd, self, cd, lf, n). length cd)")
     (auto dest: loop_body_shrinks)

declare encode_loop.simps [simp del]

subsection \<open>The allocator\<close>

lemma get_replacement_fresh:
  "get_replacement depth rnd self n = Inr (c, n')
   \<Longrightarrow> c \<notin> fst ` set (lookup_table self) \<and> c \<notin> set (raw_file_data self)"
proof (induction depth arbitrary: n)
  case 0
  then show ?case
    by (subst (asm) get_replacement.simps) (auto simp: Let_def split: if_splits)
next
  case (Suc depth)
  show ?case
  proof (cases "rnd n \<in> set (map fst (lookup_table self)) \<or> rnd n \<in> set (raw_file_data self)")
    case True
    with Suc.prems have "get_replacement depth rnd self (Suc n) = Inr (c, n')"
      by (subst (asm) get_replacement.simps) (simp add: Let_def split: if_splits)
    then show ?thesis by (rule Suc.IH)
  next
    case False
    with Suc.prems have "c = rnd n"
      by (subst (asm) get_replacement.simps) (simp add: Let_def split: if_splits)
    with False show ?thesis by simp
  qed
qed

lemma get_replacement_exhausted:
  "get_replacement depth rnd self n = Inl TableExhausted
   \<longleftrightarrow> int (length (lookup_table self)) = 256 - int (card (set (raw_file_data self)))"
proof (induction depth arbitrary: n)
  case 0
  show ?case
    by (subst get_replacement.simps) (simp add: Let_def length_remdups_card_conv)
next
  case (Suc depth)
  show ?case
    by (subst get_replacement.simps) (simp add: Let_def length_remdups_card_conv Suc.IH)
qed

lemma update_fresh: "k \<notin> fst ` set t \<Longrightarrow> AList.update k v t = t @ [(k, v)]"
  by (induction t) auto

text \<open>What a completed run of the loop body has done.\<close>

lemma loop_body_Continue:
  assumes "loop_body depth rnd (self, cd, lf, n) = Continue (self', cd', lf', n')"
  obtains c p where "get_replacement depth rnd self n = Inr (c, n')"
    and "max_pair (make_pairs cd) = Inr (p, lf')"
    and "self' = self\<lparr>lookup_table := lookup_table self @ [(c, p)]\<rparr>"
    and "cd' = replace cd p c"
    and "c \<notin> fst ` set (lookup_table self)" and "c \<notin> set (raw_file_data self)"
proof -
  from assms obtain c p where g: "get_replacement depth rnd self n = Inr (c, n')"
    and m: "max_pair (make_pairs cd) = Inr (p, lf')"
    and s: "self' = self\<lparr>lookup_table := AList.update c p (lookup_table self)\<rparr>"
    and r: "cd' = replace cd p c"
    by (auto simp: loop_body_def Let_def split: sum.splits prod.splits)
  from get_replacement_fresh [OF g] have f: "c \<notin> fst ` set (lookup_table self)"
    and f': "c \<notin> set (raw_file_data self)" by simp_all
  show thesis
    by (rule that [OF g m _ r f f']) (simp add: s update_fresh [OF f])
qed

text \<open>
  Claim C3. A byte returned by \<open>__get_replacement\<close> is neither a key of the lookup table
  nor a byte of the raw file data; the call raises the exception for an exhausted table
  exactly when the number of entries of the table is 256 minus the number of distinct
  bytes of the raw file data; and an iteration of the encoder that completes appends one
  entry under such a fresh key to the table, so no key is used twice.
\<close>

theorem allocator_contract:
  "(get_replacement depth rnd self n = Inr (c, n')
      \<longrightarrow> c \<notin> fst ` set (lookup_table self) \<and> c \<notin> set (raw_file_data self))
   \<and> (get_replacement depth rnd self n = Inl TableExhausted
      \<longleftrightarrow> int (length (lookup_table self)) = 256 - int (card (set (raw_file_data self))))
   \<and> (loop_body depth rnd (self, cd, lf, n) = Continue (self', cd', lf', n')
      \<longrightarrow> (\<exists>k p. lookup_table self' = lookup_table self @ [(k, p)]
                 \<and> k \<notin> fst ` set (lookup_table self)
                 \<and> k \<notin> set (raw_file_data self)
                 \<and> raw_file_data self' = raw_file_data self))"
proof (intro conjI impI)
  assume "loop_body depth rnd (self, cd, lf, n) = Continue (self', cd', lf', n')"
  then show "\<exists>k p. lookup_table self' = lookup_table self @ [(k, p)]
                 \<and> k \<notin> fst ` set (lookup_table self)
                 \<and> k \<notin> set (raw_file_data self)
                 \<and> raw_file_data self' = raw_file_data self"
    by (elim loop_body_Continue) auto
qed (use get_replacement_fresh get_replacement_exhausted in blast)+

theorem allocator_contract_witness:
  "get_replacement 10 of_nat \<lparr>lookup_table = [], raw_file_data = [65, 65, 65]\<rparr> 0 = Inr (0, 1)
   \<and> (0 :: byte) \<notin> set [65, 65, 65]
   \<and> get_replacement 10 of_nat \<lparr>lookup_table = [], raw_file_data = [65, 65, 65]\<rparr> 0
       \<noteq> Inl TableExhausted
   \<and> loop_body 10 of_nat (\<lparr>lookup_table = [], raw_file_data = [65, 65, 65]\<rparr>, [65, 65, 65], 0, 0)
       = Continue (\<lparr>lookup_table = [(0, 65, 65)], raw_file_data = [65, 65, 65]\<rparr>, [0, 65], 2, 1)"
  using allocator_contract [of 10 of_nat "\<lparr>lookup_table = [], raw_file_data = [65, 65, 65]\<rparr>" 0 0 1
      "[65, 65, 65]" 0 "\<lparr>lookup_table = [(0, 65, 65)], raw_file_data = [65, 65, 65]\<rparr>" "[0, 65]" 2]
  by (simp add: get_replacement.simps loop_body_def make_pairs_def max_pair_def)

subsection \<open>Inputs of length 0 and 1\<close>

text \<open>
  Claim C2. On an input of length 0 or 1 the loop is entered, since
  \<open>last_pair_frequency\<close> starts at 0; the pair-frequency dict is empty, a replacement byte
  is drawn, and \<open>__max_pair\<close> returns its unbound local variable. The call raises
  \<open>UnboundLocalError\<close> and produces no output: for the empty input whatever the random
  bytes are, and for a one-byte input as soon as a byte other than the input is drawn.
\<close>

theorem degenerate_input_raises:
  "compress_binary depth rnd init [] = Inl UnboundLocalError
   \<and> compress_binary depth (\<lambda>n. x + 1) init [x] = Inl UnboundLocalError"
  by (simp add: compress_binary_def init_def encode_loop.simps loop_body_def make_pairs_def
        get_replacement.simps max_pair_def)

subsection \<open>The decoder\<close>

lemma reconstruct_loop_ok:
  "\<forall>i \<in> set is. i + 2 < length chunk \<Longrightarrow> \<exists>t. reconstruct_loop chunk is t0 = Inr t"
  by (induction "is" arbitrary: t0) auto

lemma reconstruct_loop_fail:
  "\<exists>i \<in> set is. \<not> i + 2 < length chunk \<Longrightarrow> reconstruct_loop chunk is t0 = Inl IndexError"
  by (induction "is" arbitrary: t0) auto

lemma reconstruct_dict_short:
  assumes "length (b # rest) < 3 * unat b"
  shows "reconstruct_dict (b # rest) = Inl IndexError"
proof -
  from assms have pos: "0 < unat b" by (cases "unat b") auto
  have "\<exists>i \<in> set (map (\<lambda>j. 3 * j) [0..<unat b]). \<not> i + 2 < length (b # rest)"
  proof (rule bexI [of _ "3 * (unat b - 1)"])
    show "\<not> 3 * (unat b - 1) + 2 < length (b # rest)" using assms pos by simp
    show "3 * (unat b - 1) \<in> set (map (\<lambda>j. 3 * j) [0..<unat b])" using pos by simp
  qed
  then have "reconstruct_loop (b # rest) (map (\<lambda>j. 3 * j) [0..<unat b]) [] = Inl IndexError"
    by (rule reconstruct_loop_fail)
  with assms pos show ?thesis
    by (simp add: reconstruct_dict_def Let_def)
qed

lemma reconstruct_dict_long:
  assumes "3 * unat b \<le> length (b # rest)"
  shows "\<exists>t. reconstruct_dict (b # rest) = Inr t"
proof (cases "unat b = 0")
  case True
  then show ?thesis by (simp add: reconstruct_dict_def)
next
  case False
  let ?chunk = "drop (length (b # rest) - 3 * unat b) (b # rest)"
  have len: "length ?chunk = 3 * unat b" using assms by simp
  have "\<forall>i \<in> set (map (\<lambda>j. 3 * j) [0..<unat b]). i + 2 < length ?chunk"
    unfolding len by auto
  from reconstruct_loop_ok [OF this, of "[]"] False show ?thesis
    by (simp add: reconstruct_dict_def Let_def)
qed

text \<open>
  Claim C10. \<open>decompress_binary\<close> raises (\<open>IndexError\<close>) on the empty artifact and on an
  artifact shorter than three times its first byte; on a non-empty artifact that is at
  least that long, \<open>__reconstruct_dict\<close> returns a table.
\<close>

theorem truncated_artifact_raises:
  "(data = [] \<longrightarrow> decompress_binary depth data = Inl IndexError)
   \<and> (\<forall>b rest. data = b # rest \<and> length data < 3 * unat b
         \<longrightarrow> decompress_binary depth data = Inl IndexError)
   \<and> (\<forall>b rest. data = b # rest \<and> 3 * unat b \<le> length data
         \<longrightarrow> (\<exists>t. reconstruct_dict data = Inr t))"
proof (intro conjI allI impI)
  assume "data = []"
  then show "decompress_binary depth data = Inl IndexError"
    by (simp add: decompress_binary_def reconstruct_dict_def)
next
  fix b rest
  assume a: "data = b # rest \<and> length data < 3 * unat b"
  then have "reconstruct_dict data = Inl IndexError"
    using reconstruct_dict_short [of b rest] by auto
  then show "decompress_binary depth data = Inl IndexError"
    by (simp add: decompress_binary_def)
next
  fix b rest
  assume "data = b # rest \<and> 3 * unat b \<le> length data"
  then show "\<exists>t. reconstruct_dict data = Inr t"
    using reconstruct_dict_long [of b rest] by auto
qed

theorem truncated_artifact_raises_witness:
  "decompress_binary 10 [] = Inl IndexError
   \<and> length [2, 5, 7, 1, 2 :: byte] < 3 * unat (2 :: byte)
   \<and> decompress_binary 10 [2, 5, 7, 1, 2] = Inl IndexError
   \<and> 3 * unat (1 :: byte) \<le> length [1, 2, 3 :: byte]
   \<and> (\<exists>t. reconstruct_dict [1, 2, 3] = Inr t)"
  using truncated_artifact_raises [of "[]" 10]
    truncated_artifact_raises [of "[2, 5, 7, 1, 2]" 10]
    truncated_artifact_raises [of "[1, 2, 3]" 10]
  by simp

text \<open>The table \<open>__reconstruct_dict\<close> builds from a trailer with pairwise distinct keys.\<close>

lemma length_serialize_table: "length (serialize_table t) = 3 * length t"
  by (induction t) (auto simp: serialize_table_def)

lemma serialize_table_Cons:
  "serialize_table ((k, v0, v1) # t) = [k, v0, v1] @ serialize_table t"
  by (simp add: serialize_table_def)

lemma reconstruct_loop_serialized:
  "reconstruct_loop (pre @ serialize_table t) (map (\<lambda>j. length pre + 3 * j) [0..<length t]) t0
   = Inr (fold (\<lambda>(k, v). AList.update k v) t t0)"
proof (induction t arbitrary: pre t0)
  case Nil
  show ?case by simp
next
  case (Cons e t)
  obtain k v0 v1 where e: "e = (k, v0, v1)" by (cases e)
  have idx: "map (\<lambda>j. length pre + 3 * j) [0..<length (e # t)]
      = length pre # map (\<lambda>j. length (pre @ [k, v0, v1]) + 3 * j) [0..<length t]"
    by (simp add: upt_conv_Cons map_Suc_upt [symmetric] del: upt_Suc)
  have chunk: "pre @ serialize_table (e # t) = (pre @ [k, v0, v1]) @ serialize_table t"
    by (simp add: e serialize_table_Cons)
  show ?case
    unfolding idx
    by (simp add: e serialize_table_Cons nth_append
          Cons.IH [of "pre @ [k, v0, v1]", simplified])
qed

lemma fold_update_distinct:
  "distinct (map fst t) \<Longrightarrow> fst ` set t0 \<inter> fst ` set t = {}
   \<Longrightarrow> fold (\<lambda>(k, v). AList.update k v) t t0 = t0 @ t"
proof (induction t arbitrary: t0)
  case Nil
  show ?case by simp
next
  case (Cons e t)
  obtain k v where e: "e = (k, v)" by (cases e)
  from Cons.prems have "k \<notin> fst ` set t0" by (auto simp: e)
  then have u: "AList.update k v t0 = t0 @ [(k, v)]" by (rule update_fresh)
  have "fold (\<lambda>(k, v). AList.update k v) t (t0 @ [(k, v)]) = (t0 @ [(k, v)]) @ t"
    using Cons.prems by (intro Cons.IH) (auto simp: e)
  then show ?case by (simp add: e u)
qed

lemma reconstruct_dict_serialized:
  assumes "length t < 256" and "distinct (map fst t)"
  shows "reconstruct_dict (of_nat (length t) # payload @ serialize_table t) = Inr t"
proof -
  let ?art = "of_nat (length t) # payload @ serialize_table t"
  have u: "unat (of_nat (length t) :: byte) = length t"
    using assms(1) by (simp add: unat_of_nat)
  have d: "drop (Suc (length (payload @ serialize_table t)) - 3 * length t) ?art
      = serialize_table t"
    by (simp add: length_serialize_table)
  have "reconstruct_loop ([] @ serialize_table t) (map (\<lambda>j. length ([] :: byte list) + 3 * j) [0..<length t]) []
      = Inr (fold (\<lambda>(k, v). AList.update k v) t [])"
    by (rule reconstruct_loop_serialized)
  also have "fold (\<lambda>(k, v). AList.update k v) t [] = [] @ t"
    using assms(2) by (intro fold_update_distinct) simp_all
  finally have r: "reconstruct_loop (serialize_table t) (map (\<lambda>j. 3 * j) [0..<length t]) [] = Inr t"
    by simp
  show ?thesis
  proof (cases "length t = 0")
    case True
    then show ?thesis by (simp add: reconstruct_dict_def u)
  next
    case False
    then show ?thesis
      unfolding reconstruct_dict_def
      by (simp add: u Let_def d r del: drop_append length_append)
  qed
qed

text \<open>The loop of \<open>decompress_binary\<close> returns the expansions of the bytes it visits, in order.\<close>

lemma decompress_loop_Inr:
  "decompress_loop depth cb t is acc = Inr out
   \<longleftrightarrow> (\<exists>bss. list_all2 (\<lambda>i bs. get_original depth (cb ! i) t = Inr bs) is bss
          \<and> out = acc @ concat bss)"
proof (induction "is" arbitrary: acc)
  case Nil
  show ?case by auto
next
  case (Cons i "is")
  show ?case
  proof (cases "get_original depth (cb ! i) t")
    case (Inl e)
    then show ?thesis by (auto simp: list_all2_Cons1)
  next
    case (Inr bs)
    then show ?thesis by (auto simp: Cons.IH list_all2_Cons1)
  qed
qed

lemma list_all2_nth_shift:
  "list_all2 (\<lambda>i bs. P ((k # payload @ tr) ! i) bs) [Suc 0..<Suc (length payload)] bss
   \<longleftrightarrow> list_all2 P payload bss"
proof -
  have "map (\<lambda>i. (k # payload @ tr) ! i) [Suc 0..<Suc (length payload)]
      = map (\<lambda>i. payload ! i) [0..<length payload]"
    unfolding map_Suc_upt [symmetric] by (simp add: nth_append del: upt_Suc)
  also have "\<dots> = payload" by (rule map_nth)
  finally have "list_all2 P payload bss
      \<longleftrightarrow> list_all2 P (map (\<lambda>i. (k # payload @ tr) ! i) [Suc 0..<Suc (length payload)]) bss"
    by simp
  then show ?thesis by (simp add: list_all2_map1 del: upt_Suc)
qed

lemma decompress_binary_serialized:
  assumes "length t < 256" and "distinct (map fst t)"
  shows "decompress_binary depth (of_nat (length t) # payload @ serialize_table t) = Inr out
   \<longleftrightarrow> (\<exists>bss. list_all2 (\<lambda>b bs. get_original depth b t = Inr bs) payload bss
          \<and> out = concat bss)"
proof -
  have n: "nat (int (length (of_nat (length t) # payload @ serialize_table t)) - int (length t) * 3)
      = Suc (length payload)"
    by (simp add: length_serialize_table)
  show ?thesis
    unfolding decompress_binary_def reconstruct_dict_serialized [OF assms]
    by (simp add: Let_def n decompress_loop_Inr
          list_all2_nth_shift [where P = "\<lambda>b bs. get_original depth b t = Inr bs"]
          del: length_append list.size upt_Suc)
qed

text \<open>\<open>__get_original\<close> computes the expansion of the specification.\<close>

lemma get_original_spec_expand:
  "get_original depth b t = Inr bs \<Longrightarrow> spec_expand t b bs"
proof (induction depth arbitrary: b bs)
  case 0
  then show ?case
    by (subst (asm) get_original.simps)
       (auto split: option.splits intro: spec_expand.literal)
next
  case (Suc depth)
  show ?case
  proof (cases "map_of t b")
    case None
    with Suc.prems have "bs = [b]"
      by (subst (asm) get_original.simps) simp
    with None show ?thesis by (simp add: spec_expand.literal)
  next
    case (Some p)
    obtain c0 c1 where p: "p = (c0, c1)" by (cases p)
    from Suc.prems Some obtain b0 b1 where
      "get_original depth c0 t = Inr b0" "get_original depth c1 t = Inr b1" "bs = b0 @ b1"
      by (subst (asm) get_original.simps) (auto simp: p split: sum.splits)
    with Some show ?thesis
      by (auto simp: p intro: spec_expand.code Suc.IH)
  qed
qed

lemma spec_expand_get_original:
  "spec_expand t b bs \<Longrightarrow> \<exists>d. \<forall>depth \<ge> d. get_original depth b t = Inr bs"
proof (induction rule: spec_expand.induct)
  case (literal b)
  then show ?case by (subst get_original.simps) simp
next
  case (code b c0 c1 b0 b1)
  then obtain d0 d1 where d0: "\<forall>depth \<ge> d0. get_original depth c0 t = Inr b0"
    and d1: "\<forall>depth \<ge> d1. get_original depth c1 t = Inr b1" by blast
  have "\<forall>depth \<ge> Suc (max d0 d1). get_original depth b t = Inr (b0 @ b1)"
  proof (intro allI impI)
    fix depth assume "Suc (max d0 d1) \<le> depth"
    then obtain d where d: "depth = Suc d" "d0 \<le> d" "d1 \<le> d"
      by (cases depth) auto
    show "get_original depth b t = Inr (b0 @ b1)"
      unfolding d(1)
      by (subst get_original.simps) (simp add: code.hyps d0 d1 d)
  qed
  then show ?case by blast
qed

lemma spec_expand_list_get_original:
  "list_all2 (spec_expand t) bs bss
   \<Longrightarrow> \<exists>d. \<forall>depth \<ge> d. list_all2 (\<lambda>b bs. get_original depth b t = Inr bs) bs bss"
proof (induction rule: list_all2_induct)
  case Nil
  show ?case by simp
next
  case (Cons b bs x bss)
  from spec_expand_get_original [OF Cons.hyps(1)]
  obtain d0 where d0: "\<forall>depth \<ge> d0. get_original depth b t = Inr x" by blast
  from Cons.IH obtain d1 where
    d1: "\<forall>depth \<ge> d1. list_all2 (\<lambda>b bs. get_original depth b t = Inr bs) bs bss" by blast
  have "\<forall>depth \<ge> max d0 d1. list_all2 (\<lambda>b bs. get_original depth b t = Inr bs) (b # bs) (x # bss)"
    using d0 d1 by simp
  then show ?case by blast
qed

text \<open>
  Claim C7, as amended. Take an artifact made of the entry count, a payload and a
  trailer of that many three-byte records whose first bytes are pairwise distinct. Then
  the payload of the specification is that payload, \<open>__reconstruct_dict\<close> returns the
  table of the records, a result of \<open>decompress_binary\<close> is the concatenation of the
  expansions of the bytes of the payload in order, and \<open>decompress_binary\<close> returns it
  whenever every byte of the payload has an expansion and the recursion limit is high
  enough.
\<close>

theorem decoder_semantics:
  assumes "length t < 256" and "distinct (map fst t)"
    and "artifact = of_nat (length t) # payload @ serialize_table t"
  shows "spec_payload artifact = payload
    \<and> reconstruct_dict artifact = Inr t
    \<and> (decompress_binary depth artifact = Inr out \<longrightarrow> spec_decodes artifact out)
    \<and> (spec_decodes artifact out
         \<longrightarrow> (\<exists>d. \<forall>depth' \<ge> d. decompress_binary depth' artifact = Inr out))"
proof -
  have u: "unat (of_nat (length t) :: byte) = length t"
    using assms(1) by (simp add: unat_of_nat)
  have p: "spec_payload artifact = payload"
    by (simp add: assms(3) spec_payload_def u length_serialize_table)
  have r: "reconstruct_dict artifact = Inr t"
    unfolding assms(3) by (rule reconstruct_dict_serialized [OF assms(1,2)])
  have d: "decompress_binary k artifact = Inr out
      \<longleftrightarrow> (\<exists>bss. list_all2 (\<lambda>b bs. get_original k b t = Inr bs) payload bss \<and> out = concat bss)"
    for k
    unfolding assms(3) by (rule decompress_binary_serialized [OF assms(1,2)])
  have a: "spec_decodes artifact out" if "decompress_binary depth artifact = Inr out"
  proof -
    from that obtain bss where
      g: "list_all2 (\<lambda>b bs. get_original depth b t = Inr bs) payload bss" and o: "out = concat bss"
      unfolding d by blast
    from g have "list_all2 (spec_expand t) payload bss"
      by (rule list_all2_mono) (rule get_original_spec_expand)
    with o show ?thesis
      unfolding spec_decodes_def p r by auto
  qed
  have b: "\<exists>d. \<forall>depth' \<ge> d. decompress_binary depth' artifact = Inr out"
    if "spec_decodes artifact out"
  proof -
    from that obtain bss where l: "list_all2 (spec_expand t) payload bss" and o: "out = concat bss"
      unfolding spec_decodes_def p r by auto
    from spec_expand_list_get_original [OF l] obtain k where
      "\<forall>depth' \<ge> k. list_all2 (\<lambda>b bs. get_original depth' b t = Inr bs) payload bss" by blast
    with o have "\<forall>depth' \<ge> k. decompress_binary depth' artifact = Inr out"
      unfolding d by blast
    then show ?thesis by blast
  qed
  from p r a b show ?thesis by blast
qed

theorem decoder_semantics_witness:
  "length [(0, 65, 65), (1, 0, 65 :: byte)] < 256
   \<and> distinct (map fst [(0, 65, 65), (1 :: byte, 0 :: byte, 65 :: byte)])
   \<and> spec_payload [2, 1, 0, 65, 65, 1, 0, 65] = [1]
   \<and> reconstruct_dict [2, 1, 0, 65, 65, 1, 0, 65] = Inr [(0, 65, 65), (1, 0, 65)]
   \<and> decompress_binary 10 [2, 1, 0, 65, 65, 1, 0, 65] = Inr [65, 65, 65]
   \<and> spec_decodes [2, 1, 0, 65, 65, 1, 0, 65] [65, 65, 65]"
proof -
  have e: "decompress_binary 10 [2, 1, 0, 65, 65, 1, 0, 65] = Inr [65, 65, 65]"
    by code_simp
  show ?thesis
    using decoder_semantics [of "[(0, 65, 65), (1, 0, 65)]" "[2, 1, 0, 65, 65, 1, 0, 65]" "[1]"
        10 "[65, 65, 65]"] e
    by (simp add: serialize_table_def)
qed

text \<open>
  The claim as stated fails. In the artifact below both records of the trailer have the
  key 7, so the reconstructed dict has one entry, \<open>data_len\<close> is \<open>8 - 3\<close>, and the decoder
  also expands the first record of the trailer as if it were payload. An artifact
  shorter than three times its first byte has no result at all.
\<close>

theorem decoder_semantics_counterexample:
  "decompress_binary 10 [2, 5, 7, 1, 2, 7, 3, 4] = Inr [5, 3, 4, 1, 2]
   \<and> \<not> spec_decodes [2, 5, 7, 1, 2, 7, 3, 4] [5, 3, 4, 1, 2]
   \<and> spec_decodes [2, 5, 7, 1, 2, 7, 3, 4] [5]
   \<and> decompress_binary 10 [1, 2] = Inl IndexError"
proof -
  have r: "reconstruct_dict [2, 5, 7, 1, 2, 7, 3, 4] = Inr [(7, 3, 4)]"
    by code_simp
  have p: "spec_payload [2, 5, 7, 1, 2, 7, 3, 4] = [5]"
    by (simp add: spec_payload_def)
  have x: "spec_expand [(7, 3, 4)] 5 bs \<longleftrightarrow> bs = [5]" for bs
    by (auto elim: spec_expand.cases intro: spec_expand.literal)
  have s: "spec_decodes [2, 5, 7, 1, 2, 7, 3, 4] out \<longleftrightarrow> out = [5]" for out
    unfolding spec_decodes_def r p by (auto simp: list_all2_Cons1 x)
  have d: "decompress_binary 10 [2, 5, 7, 1, 2, 7, 3, 4] = Inr [5, 3, 4, 1, 2]"
    by code_simp
  have t: "decompress_binary 10 [1, 2] = Inl IndexError"
    by code_simp
  from d t show ?thesis by (simp add: s)
qed

subsection \<open>Two calls on one object\<close>

text \<open>
  Claim C8. \<open>compress_binary\<close> never empties \<open>__lookup_table\<close>: only \<open>__init__\<close> does. A
  second call on the same object starts with the entries of the first. Below, the first
  call compresses \<open>AA\<close> and draws the byte \<open>B\<close> as its code; the second call compresses
  \<open>BBB\<close>, with the same random bytes as a call on a fresh object. Its artifact has three
  table entries where the fresh one has two, and it does not decompress to \<open>BBB\<close>, since
  the byte \<open>B\<close> of the input is a key of the stale table.
\<close>

theorem stale_table_second_call:
  "compress_binary 10 (\<lambda>n. of_nat n + 66) init [65, 65]
     = Inr ([1, 66, 66, 65, 65], \<lparr>lookup_table = [(66, 65, 65)], raw_file_data = [65, 65]\<rparr>)
   \<and> compress_binary 10 (\<lambda>n. of_nat n + 67)
        \<lparr>lookup_table = [(66, 65, 65)], raw_file_data = [65, 65]\<rparr> [66, 66, 66]
     = Inr ([3, 68, 66, 65, 65, 67, 66, 66, 68, 67, 66],
            \<lparr>lookup_table = [(66, 65, 65), (67, 66, 66), (68, 67, 66)],
               raw_file_data = [66, 66, 66]\<rparr>)
   \<and> compress_binary 10 (\<lambda>n. of_nat n + 67) init [66, 66, 66]
     = Inr ([2, 68, 67, 66, 66, 68, 67, 66],
            \<lparr>lookup_table = [(67, 66, 66), (68, 67, 66)], raw_file_data = [66, 66, 66]\<rparr>)
   \<and> decompress_binary 10 [3, 68, 66, 65, 65, 67, 66, 66, 68, 67, 66]
     = Inr [65, 65, 65, 65, 65, 65]
   \<and> decompress_binary 10 [2, 68, 67, 66, 66, 68, 67, 66] = Inr [66, 66, 66]"
  by code_simp

subsection \<open>The pair chosen in an iteration\<close>

lemma map_fst_bump:
  "map fst (bump k d) = (if k \<in> fst ` set d then map fst d else map fst d @ [k])"
  by (induction k d rule: bump.induct) auto

lemma map_of_bump:
  "map_of (bump k d) = (map_of d)(k \<mapsto> (case map_of d k of None \<Rightarrow> 1 | Some c \<Rightarrow> c + 1))"
  by (induction k d rule: bump.induct) auto

lemma distinct_bump: "distinct (map fst d) \<Longrightarrow> distinct (map fst (bump k d))"
  by (simp add: map_fst_bump)

lemma map_fst_foldl_bump:
  "map fst (foldl (\<lambda>pairs pair. bump pair pairs) d ks)
   = map fst d @ first_occurrences (filter (\<lambda>k. k \<notin> fst ` set d) ks)"
proof (induction ks arbitrary: d)
  case Nil
  show ?case by simp
next
  case (Cons k ks)
  show ?case
  proof (cases "k \<in> fst ` set d")
    case True
    then have "insert k (fst ` set d) = fst ` set d" by auto
    with True show ?thesis
      by (simp add: Cons.IH map_fst_bump fst_set_bump)
  next
    case False
    have "filter (\<lambda>x. x \<noteq> k \<and> x \<notin> fst ` set d) ks
        = filter (\<lambda>y. y \<noteq> k) (filter (\<lambda>k. k \<notin> fst ` set d) ks)"
      by (simp add: conj_commute)
    with False show ?thesis
      by (simp add: Cons.IH map_fst_bump fst_set_bump)
  qed
qed

lemma distinct_foldl_bump:
  "distinct (map fst d) \<Longrightarrow> distinct (map fst (foldl (\<lambda>pairs pair. bump pair pairs) d ks))"
  by (induction ks arbitrary: d) (simp_all add: distinct_bump)

lemma map_of_foldl_bump:
  "map_of (foldl (\<lambda>pairs pair. bump pair pairs) d ks) k
   = (if k \<in> set ks \<or> k \<in> fst ` set d
      then Some ((case map_of d k of None \<Rightarrow> 0 | Some c \<Rightarrow> c) + count_list ks k)
      else None)"
proof (induction ks arbitrary: d)
  case Nil
  show ?case
  proof (cases "k \<in> fst ` set d")
    case True
    then obtain c where "map_of d k = Some c"
      by (meson map_of_eq_None_iff not_Some_eq)
    with True show ?thesis by simp
  next
    case False
    then show ?thesis by (simp add: map_of_eq_None_iff)
  qed
next
  case (Cons x ks)
  show ?case
  proof (cases "k \<in> fst ` set d")
    case True
    then obtain c where "map_of d k = Some c"
      by (meson map_of_eq_None_iff not_Some_eq)
    with True show ?thesis
      by (simp add: Cons.IH map_of_bump fst_set_bump)
  next
    case False
    then have "map_of d k = None" by (simp add: map_of_eq_None_iff)
    with False show ?thesis
      by (simp add: Cons.IH map_of_bump fst_set_bump)
  qed
qed

lemma make_pairs_order: "map fst (make_pairs cd) = first_occurrences (adjacent cd)"
  by (simp add: make_pairs_def map_fst_foldl_bump)

lemma make_pairs_count:
  assumes "x \<in> set (make_pairs cd)"
  shows "snd x = count_list (adjacent cd) (fst x)"
proof -
  have "distinct (map fst (make_pairs cd))"
    unfolding make_pairs_def by (rule distinct_foldl_bump) simp
  moreover from assms have "(fst x, snd x) \<in> set (make_pairs cd)" by simp
  ultimately have "map_of (make_pairs cd) (fst x) = Some (snd x)"
    by (rule map_of_is_SomeI)
  then show ?thesis
    by (simp add: make_pairs_def map_of_foldl_bump split: if_splits)
qed

text \<open>
  The scan of \<open>__max_pair\<close>: either no item reaches the running maximum, or the result
  is the last item whose count is maximal.
\<close>

lemma max_pair_loop_last_max:
  "max_pair_loop items mf mp = (f, r)
   \<Longrightarrow> (r = mp \<and> f = mf \<and> (\<forall>x \<in> set items. snd x < mf))
     \<or> (\<exists>pre k post. items = pre @ (k, f) # post \<and> r = Some k \<and> mf \<le> f
           \<and> (\<forall>x \<in> set pre. snd x \<le> f) \<and> (\<forall>x \<in> set post. snd x < f))"
proof (induction items mf mp rule: max_pair_loop.induct)
  case (1 max_freq max_pair)
  then show ?case by simp
next
  case (2 key freq items max_freq max_pair)
  show ?case
  proof (cases "freq \<ge> max_freq")
    case True
    with "2.prems" have call: "max_pair_loop items freq (Some key) = (f, r)" by simp
    from "2.IH"(1) [OF True call] show ?thesis
    proof (elim disjE exE conjE)
      assume "r = Some key" "f = freq" "\<forall>x \<in> set items. snd x < freq"
      with True have "(key, freq) # items = [] @ (key, f) # items \<and> r = Some key \<and> max_freq \<le> f
          \<and> (\<forall>x \<in> set []. snd x \<le> f) \<and> (\<forall>x \<in> set items. snd x < f)"
        by simp
      then show ?thesis by blast
    next
      fix pre k post
      assume "items = pre @ (k, f) # post" "r = Some k" "freq \<le> f"
        "\<forall>x \<in> set pre. snd x \<le> f" "\<forall>x \<in> set post. snd x < f"
      with True have "(key, freq) # items = ((key, freq) # pre) @ (k, f) # post \<and> r = Some k
          \<and> max_freq \<le> f \<and> (\<forall>x \<in> set ((key, freq) # pre). snd x \<le> f)
          \<and> (\<forall>x \<in> set post. snd x < f)"
        by simp
      then show ?thesis by blast
    qed
  next
    case False
    with "2.prems" have call: "max_pair_loop items max_freq max_pair = (f, r)" by simp
    from "2.IH"(2) [OF False call] show ?thesis
    proof (elim disjE exE conjE)
      assume "r = max_pair" "f = max_freq" "\<forall>x \<in> set items. snd x < max_freq"
      with False show ?thesis by simp
    next
      fix pre k post
      assume "items = pre @ (k, f) # post" "r = Some k" "max_freq \<le> f"
        "\<forall>x \<in> set pre. snd x \<le> f" "\<forall>x \<in> set post. snd x < f"
      with False have "(key, freq) # items = ((key, freq) # pre) @ (k, f) # post \<and> r = Some k
          \<and> max_freq \<le> f \<and> (\<forall>x \<in> set ((key, freq) # pre). snd x \<le> f)
          \<and> (\<forall>x \<in> set post. snd x < f)"
        by simp
      then show ?thesis by blast
    qed
  qed
qed

lemma max_pair_last_max:
  assumes "max_pair data = Inr (p, f)"
  shows "\<exists>pre post. data = pre @ (p, f) # post
     \<and> (\<forall>x \<in> set pre. snd x \<le> f) \<and> (\<forall>x \<in> set post. snd x < f)"
proof -
  from assms have "max_pair_loop data 0 None = (f, Some p)"
    by (auto simp: max_pair_def split: prod.splits option.splits)
  from max_pair_loop_last_max [OF this] show ?thesis by auto
qed

text \<open>
  Claim C6. In an iteration that completes, the pair-frequency dict lists the pairs of
  the buffer in the order of their first occurrences, each with the number of its
  occurrences, and the pair replaced is the last one in that order whose count is the
  maximum: the counts before it are at most its count, the counts after it are smaller.
\<close>

theorem argmax_tie_break:
  assumes "loop_body depth rnd (self, cd, lf, n) = Continue (self', cd', lf', n')"
  shows "\<exists>c p pre post.
      cd' = replace cd p c
    \<and> lookup_table self' = lookup_table self @ [(c, p)]
    \<and> make_pairs cd = pre @ (p, lf') # post
    \<and> (\<forall>x \<in> set pre. snd x \<le> lf')
    \<and> (\<forall>x \<in> set post. snd x < lf')
    \<and> map fst (make_pairs cd) = first_occurrences (adjacent cd)
    \<and> (\<forall>x \<in> set (make_pairs cd). snd x = count_list (adjacent cd) (fst x))"
proof -
  from assms obtain c p where m: "max_pair (make_pairs cd) = Inr (p, lf')"
    and s: "self' = self\<lparr>lookup_table := lookup_table self @ [(c, p)]\<rparr>"
    and r: "cd' = replace cd p c"
    by (rule loop_body_Continue)
  from max_pair_last_max [OF m] obtain pre post where
    "make_pairs cd = pre @ (p, lf') # post"
    "\<forall>x \<in> set pre. snd x \<le> lf'" "\<forall>x \<in> set post. snd x < lf'"
    by blast
  with s r make_pairs_order [of cd] make_pairs_count [of _ cd] show ?thesis
    by (intro exI [of _ c] exI [of _ p] exI [of _ pre] exI [of _ post]) simp
qed

theorem argmax_tie_break_witness:
  "loop_body 10 of_nat
      (\<lparr>lookup_table = [], raw_file_data = [65, 66, 65, 66, 67, 66, 67]\<rparr>,
       [65, 66, 65, 66, 67, 66, 67], 0, 0)
     = Continue (\<lparr>lookup_table = [(0, 66, 67)], raw_file_data = [65, 66, 65, 66, 67, 66, 67]\<rparr>,
                 [65, 66, 65, 0, 0], 2, 1)
   \<and> make_pairs [65, 66, 65, 66, 67, 66, 67 :: byte]
     = [((65, 66), 2), ((66, 65), 1), ((66, 67), 2), ((67, 66), 1)]
   \<and> (\<exists>c p pre post.
        [65, 66, 65, 0, 0] = replace [65, 66, 65, 66, 67, 66, 67 :: byte] p c
      \<and> make_pairs [65, 66, 65, 66, 67, 66, 67 :: byte] = pre @ (p, 2) # post
      \<and> (\<forall>x \<in> set pre. snd x \<le> 2)
      \<and> (\<forall>x \<in> set post. snd x < 2))"
proof -
  have e: "loop_body 10 of_nat
      (\<lparr>lookup_table = [], raw_file_data = [65, 66, 65, 66, 67, 66, 67]\<rparr>,
       [65, 66, 65, 66, 67, 66, 67], 0, 0)
     = Continue (\<lparr>lookup_table = [(0, 66, 67)], raw_file_data = [65, 66, 65, 66, 67, 66, 67]\<rparr>,
                 [65, 66, 65, 0, 0], 2, 1)"
    by code_simp
  have m: "make_pairs [65, 66, 65, 66, 67, 66, 67 :: byte]
     = [((65, 66), 2), ((66, 65), 1), ((66, 67), 2), ((67, 66), 1)]"
    by code_simp
  from argmax_tie_break [OF e] have "\<exists>c p pre post.
        [65, 66, 65, 0, 0] = replace [65, 66, 65, 66, 67, 66, 67 :: byte] p c
      \<and> make_pairs [65, 66, 65, 66, 67, 66, 67 :: byte] = pre @ (p, 2) # post
      \<and> (\<forall>x \<in> set pre. snd x \<le> 2)
      \<and> (\<forall>x \<in> set post. snd x < 2)"
    by blast
  with e m show ?thesis by blast
qed

subsection \<open>The iterations of the encoder\<close>

lemma encode_loop_iterates:
  "iterates depth rnd st0 st \<Longrightarrow> encode_loop depth rnd st0 = encode_loop depth rnd st"
proof (induction rule: iterates.induct)
  case start
  show ?case by simp
next
  case (step self cd lf n st)
  have "encode_loop depth rnd (self, cd, lf, n) = encode_loop depth rnd st"
    using step.hyps(2,3) by (subst encode_loop.simps) simp
  with step.IH show ?case by simp
qed

lemma iterates_front:
  assumes "loop_body depth rnd (self, cd, lf, n) = Continue st1" and "lf \<noteq> 1"
    and "iterates depth rnd st1 st"
  shows "iterates depth rnd (self, cd, lf, n) st"
  using assms(3)
proof (induction rule: iterates.induct)
  case start
  show ?case
    by (rule iterates.step [OF iterates.start assms(2,1)])
next
  case (step self' cd' lf' n' st')
  show ?case
    by (rule iterates.step [OF step.IH step.hyps(2,3)])
qed

lemma loop_body_empty: "loop_body depth rnd (self, [], lf, n) \<noteq> Continue st"
  by (simp add: loop_body_def make_pairs_def max_pair_def split: sum.splits prod.splits)

lemma iterates_empty:
  "iterates depth rnd (self, [], lf, n) st \<Longrightarrow> st = (self, [], lf, n)"
  by (induction rule: iterates.induct) (simp_all add: loop_body_empty)

lemma set_replace: "set (replace data old new) \<subseteq> insert new (set data)"
  by (induction data old new rule: replace.induct) auto

lemma set_adjacent: "(a, b) \<in> set (adjacent data) \<Longrightarrow> a \<in> set data \<and> b \<in> set data"
  by (induction data rule: adjacent.induct) auto

lemma iterates_invariant:
  assumes "iterates depth rnd (self0\<lparr>raw_file_data := X\<rparr>, X, lf0, n0) (self, cd, lf, n)"
  shows "raw_file_data self = X \<and> set cd \<subseteq> set X \<union> fst ` set (lookup_table self)"
  using assms
proof (induction "(self, cd, lf, n)" arbitrary: self cd lf n rule: iterates.induct)
  case start
  show ?case by simp
next
  case (step self' cd' lf' n')
  from step.hyps(4) obtain c p where
    s: "self = self'\<lparr>lookup_table := lookup_table self' @ [(c, p)]\<rparr>"
    and r: "cd = replace cd' p c"
    by (rule loop_body_Continue)
  from step.hyps(2) have "raw_file_data self' = X"
    and "set cd' \<subseteq> set X \<union> fst ` set (lookup_table self')"
    by simp_all
  with set_replace [of cd' p c] show ?case
    unfolding s r by auto
qed

text \<open>
  Claim C9. In every state in which the loop of a call of \<open>compress_binary\<close> tests its
  condition, that is at the start and at the end of every iteration, each byte of the
  buffer is a byte of the raw input or a key of the lookup table; and a byte that
  \<open>__get_replacement\<close> returns in that state does not occur in the buffer.
\<close>

theorem working_buffer_invariant:
  assumes "iterates depth rnd (self0\<lparr>raw_file_data := X\<rparr>, X, 0, 0) (self, cd, lf, n)"
  shows "raw_file_data self = X
    \<and> set cd \<subseteq> set X \<union> fst ` set (lookup_table self)
    \<and> (\<forall>c n'. get_replacement depth rnd self n = Inr (c, n') \<longrightarrow> c \<notin> set cd)"
proof -
  from iterates_invariant [OF assms] have i: "raw_file_data self = X"
    "set cd \<subseteq> set X \<union> fst ` set (lookup_table self)" by simp_all
  have "c \<notin> set cd" if "get_replacement depth rnd self n = Inr (c, n')" for c n'
    using get_replacement_fresh [OF that] i by auto
  with i show ?thesis by blast
qed

theorem working_buffer_invariant_witness:
  "iterates 10 of_nat (init\<lparr>raw_file_data := [65, 65, 65]\<rparr>, [65, 65, 65], 0, 0)
     (\<lparr>lookup_table = [(0, 65, 65)], raw_file_data = [65, 65, 65]\<rparr>, [0, 65], 2, 1)
   \<and> set [0, 65 :: byte] \<subseteq> set [65, 65, 65] \<union> fst ` set [(0 :: byte, 65 :: byte, 65 :: byte)]
   \<and> get_replacement 10 of_nat \<lparr>lookup_table = [(0, 65, 65)], raw_file_data = [65, 65, 65]\<rparr> 1
       = Inr (1, 2)
   \<and> (1 :: byte) \<notin> set [0, 65]"
proof -
  have b: "loop_body 10 of_nat (init\<lparr>raw_file_data := [65, 65, 65]\<rparr>, [65, 65, 65], 0, 0)
      = Continue (\<lparr>lookup_table = [(0, 65, 65)], raw_file_data = [65, 65, 65]\<rparr>, [0, 65], 2, 1)"
    by code_simp
  have i: "iterates 10 of_nat (init\<lparr>raw_file_data := [65, 65, 65]\<rparr>, [65, 65, 65], 0, 0)
     (\<lparr>lookup_table = [(0, 65, 65)], raw_file_data = [65, 65, 65]\<rparr>, [0, 65], 2, 1)"
    by (rule iterates.step [OF iterates.start _ b]) simp
  have g: "get_replacement 10 of_nat
      \<lparr>lookup_table = [(0, 65, 65)], raw_file_data = [65, 65, 65]\<rparr> 1 = Inr (1, 2)"
    by code_simp
  from working_buffer_invariant [OF i] i g show ?thesis by simp
qed

text \<open>
  Claim C5. An iteration that finds the maximal frequency 1 still draws a code, adds
  the entry for the pair, which occurs once, and replaces the pair; the loop then ends.
  Conversely, when the loop ends with \<open>last_pair_frequency = 1\<close>, which is every end other
  than the \<open>break\<close> after an exception of \<open>__get_replacement\<close>, its last iteration was
  such an iteration: the last entry of the table is a pair that occurred once.
\<close>

theorem terminal_extra_substitution:
  "(lf \<noteq> 1 \<and> get_replacement depth rnd self n = Inr (c, n')
      \<and> max_pair (make_pairs cd) = Inr (p, 1)
    \<longrightarrow> encode_loop depth rnd (self, cd, lf, n)
          = Inr (self\<lparr>lookup_table := lookup_table self @ [(c, p)]\<rparr>, replace cd p c, 1, n')
        \<and> count_list (adjacent cd) p = 1)
   \<and> (lf0 \<noteq> 1 \<and> encode_loop depth rnd (self0, cd0, lf0, n0) = Inr (selfE, cdE, 1, nE)
    \<longrightarrow> (\<exists>self cd lf n c p.
           iterates depth rnd (self0, cd0, lf0, n0) (self, cd, lf, n)
         \<and> lf \<noteq> 1
         \<and> get_replacement depth rnd self n = Inr (c, nE)
         \<and> max_pair (make_pairs cd) = Inr (p, 1)
         \<and> count_list (adjacent cd) p = 1
         \<and> selfE = self\<lparr>lookup_table := lookup_table self @ [(c, p)]\<rparr>
         \<and> cdE = replace cd p c))"
proof (intro conjI impI)
  have once: "count_list (adjacent cd) p = 1" if "max_pair (make_pairs cd) = Inr (p, 1)"
    for cd :: "byte list" and p
  proof -
    from max_pair_last_max [OF that] have "(p, 1) \<in> set (make_pairs cd)" by auto
    from make_pairs_count [OF this] show ?thesis by simp
  qed
  {
    assume a: "lf \<noteq> 1 \<and> get_replacement depth rnd self n = Inr (c, n')
      \<and> max_pair (make_pairs cd) = Inr (p, 1)"
    then have f: "c \<notin> fst ` set (lookup_table self)"
      using get_replacement_fresh by blast
    from a have "loop_body depth rnd (self, cd, lf, n)
        = Continue (self\<lparr>lookup_table := lookup_table self @ [(c, p)]\<rparr>, replace cd p c, 1, n')"
      by (simp add: loop_body_def update_fresh [OF f])
    with a show "encode_loop depth rnd (self, cd, lf, n)
          = Inr (self\<lparr>lookup_table := lookup_table self @ [(c, p)]\<rparr>, replace cd p c, 1, n')"
      by (simp add: encode_loop.simps)
    from a show "count_list (adjacent cd) p = 1" by (simp add: once)
  }
  assume "lf0 \<noteq> 1 \<and> encode_loop depth rnd (self0, cd0, lf0, n0) = Inr (selfE, cdE, 1, nE)"
  then have "lf0 \<noteq> 1" and "encode_loop depth rnd (self0, cd0, lf0, n0) = Inr (selfE, cdE, 1, nE)"
    by simp_all
  then have "\<exists>self cd lf n. iterates depth rnd (self0, cd0, lf0, n0) (self, cd, lf, n)
      \<and> lf \<noteq> 1 \<and> loop_body depth rnd (self, cd, lf, n) = Continue (selfE, cdE, 1, nE)"
  proof (induction depth rnd "(self0, cd0, lf0, n0)" arbitrary: self0 cd0 lf0 n0
      rule: encode_loop.induct)
    case (1 depth rnd self0 cd0 lf0 n0)
    show ?case
    proof (cases "loop_body depth rnd (self0, cd0, lf0, n0)")
      case Break
      with "1.prems" show ?thesis by (simp add: encode_loop.simps)
    next
      case (Raise e)
      with "1.prems" show ?thesis by (simp add: encode_loop.simps)
    next
      case (Continue st1)
      obtain s1 c1 l1 m1 where st1: "st1 = (s1, c1, l1, m1)" by (cases st1)
      from "1.prems" Continue have e: "encode_loop depth rnd (s1, c1, l1, m1) = Inr (selfE, cdE, 1, nE)"
        by (subst (asm) encode_loop.simps) (simp add: st1)
      show ?thesis
      proof (cases "l1 = 1")
        case True
        with e have "(s1, c1, l1, m1) = (selfE, cdE, 1, nE)"
          by (simp add: encode_loop.simps)
        with Continue "1.prems"(1) iterates.start [of depth rnd "(self0, cd0, lf0, n0)"]
        show ?thesis unfolding st1 by blast
      next
        case False
        from "1.hyps" [OF "1.prems"(1) Continue [unfolded st1] False e]
        obtain self cd lf n where "iterates depth rnd (s1, c1, l1, m1) (self, cd, lf, n)"
          and r: "lf \<noteq> 1" "loop_body depth rnd (self, cd, lf, n) = Continue (selfE, cdE, 1, nE)"
          by blast
        with Continue "1.prems"(1) have "iterates depth rnd (self0, cd0, lf0, n0) (self, cd, lf, n)"
          unfolding st1 by (intro iterates_front)
        with r show ?thesis by blast
      qed
    qed
  qed
  then obtain self cd lf n where i: "iterates depth rnd (self0, cd0, lf0, n0) (self, cd, lf, n)"
    and l: "lf \<noteq> 1" and b: "loop_body depth rnd (self, cd, lf, n) = Continue (selfE, cdE, 1, nE)"
    by blast
  from b obtain c p where "get_replacement depth rnd self n = Inr (c, nE)"
    and m: "max_pair (make_pairs cd) = Inr (p, 1)"
    and "selfE = self\<lparr>lookup_table := lookup_table self @ [(c, p)]\<rparr>"
    and "cdE = replace cd p c"
    by (rule loop_body_Continue)
  with i l once [OF m] show "\<exists>self cd lf n c p.
           iterates depth rnd (self0, cd0, lf0, n0) (self, cd, lf, n)
         \<and> lf \<noteq> 1
         \<and> get_replacement depth rnd self n = Inr (c, nE)
         \<and> max_pair (make_pairs cd) = Inr (p, 1)
         \<and> count_list (adjacent cd) p = 1
         \<and> selfE = self\<lparr>lookup_table := lookup_table self @ [(c, p)]\<rparr>
         \<and> cdE = replace cd p c"
    by blast
qed

theorem terminal_extra_substitution_witness:
  "get_replacement 10 of_nat \<lparr>lookup_table = [], raw_file_data = [65, 65]\<rparr> 0 = Inr (0, 1)
   \<and> max_pair (make_pairs [65, 65 :: byte]) = Inr ((65, 65), 1)
   \<and> encode_loop 10 of_nat (\<lparr>lookup_table = [], raw_file_data = [65, 65]\<rparr>, [65, 65], 0, 0)
       = Inr (\<lparr>lookup_table = [(0, 65, 65)], raw_file_data = [65, 65]\<rparr>, [0], 1, 1)
   \<and> count_list (adjacent [65, 65 :: byte]) (65, 65) = 1
   \<and> (\<exists>self cd lf n c p.
         iterates 10 of_nat (\<lparr>lookup_table = [], raw_file_data = [65, 65]\<rparr>, [65, 65], 0, 0)
           (self, cd, lf, n)
       \<and> lf \<noteq> 1
       \<and> get_replacement 10 of_nat self n = Inr (c, 1)
       \<and> max_pair (make_pairs cd) = Inr (p, 1)
       \<and> count_list (adjacent cd) p = 1
       \<and> \<lparr>lookup_table = [(0, 65, 65)], raw_file_data = [65, 65]\<rparr>
           = self\<lparr>lookup_table := lookup_table self @ [(c, p)]\<rparr>
       \<and> [0] = replace cd p c)"
proof -
  have g: "get_replacement 10 of_nat \<lparr>lookup_table = [], raw_file_data = [65, 65]\<rparr> 0 = Inr (0, 1)"
    by code_simp
  have m: "max_pair (make_pairs [65, 65 :: byte]) = Inr ((65, 65), 1)"
    by code_simp
  note t = terminal_extra_substitution [where lf = 0 and depth = 10 and rnd = of_nat
      and self = "\<lparr>lookup_table = [], raw_file_data = [65, 65]\<rparr>" and n = 0 and c = 0 and n' = 1
      and cd = "[65, 65]" and p = "(65, 65)" and ?lf0.0 = 0
      and ?self0.0 = "\<lparr>lookup_table = [], raw_file_data = [65, 65]\<rparr>" and ?cd0.0 = "[65, 65]"
      and ?n0.0 = 0 and selfE = "\<lparr>lookup_table = [(0, 65, 65)], raw_file_data = [65, 65]\<rparr>"
      and cdE = "[0]" and nE = 1]
  from t g m have e: "encode_loop 10 of_nat (\<lparr>lookup_table = [], raw_file_data = [65, 65]\<rparr>, [65, 65], 0, 0)
       = Inr (\<lparr>lookup_table = [(0, 65, 65)], raw_file_data = [65, 65]\<rparr>, [0], 1, 1)"
    and k: "count_list (adjacent [65, 65 :: byte]) (65, 65) = 1"
    by simp_all
  from t e have "\<exists>self cd lf n c p.
         iterates 10 of_nat (\<lparr>lookup_table = [], raw_file_data = [65, 65]\<rparr>, [65, 65], 0, 0)
           (self, cd, lf, n)
       \<and> lf \<noteq> 1
       \<and> get_replacement 10 of_nat self n = Inr (c, 1)
       \<and> max_pair (make_pairs cd) = Inr (p, 1)
       \<and> count_list (adjacent cd) p = 1
       \<and> \<lparr>lookup_table = [(0, 65, 65)], raw_file_data = [65, 65]\<rparr>
           = self\<lparr>lookup_table := lookup_table self @ [(c, p)]\<rparr>
       \<and> [0] = replace cd p c"
    by simp
  with g m e k show ?thesis by blast
qed

text \<open>
  Where the entry count fits its byte, the exception for an exhausted table is handled
  as the specification says. Suppose that in some iteration of a call of
  \<open>compress_binary\<close> on a non-empty input, or on an object whose table is empty,
  \<open>__get_replacement\<close> raises that exception. Then the body is left by \<open>break\<close>, the loop
  returns the state in which the iteration began, and the call returns the artifact of
  that state: the number of table entries, which is below 256, the buffer, and the
  three bytes of every entry in order.
\<close>

theorem table_exhausted_atomicity:
  assumes "iterates depth rnd (self0\<lparr>raw_file_data := X\<rparr>, X, 0, 0) (self, cd, lf, n)"
    and "lf \<noteq> 1"
    and "get_replacement depth rnd self n = Inl TableExhausted"
    and "X \<noteq> [] \<or> lookup_table self0 = []"
  shows "loop_body depth rnd (self, cd, lf, n) = Break
    \<and> encode_loop depth rnd (self, cd, lf, n) = Inr (self, cd, lf, n)
    \<and> length (lookup_table self) < 256
    \<and> compress_binary depth rnd self0 X
        = Inr (of_nat (length (lookup_table self)) # cd
                 @ concat (map (\<lambda>(key, v0, v1). [key, v0, v1]) (lookup_table self)),
               self)
    \<and> unat (of_nat (length (lookup_table self)) :: byte) = length (lookup_table self)"
proof -
  have b: "loop_body depth rnd (self, cd, lf, n) = Break"
    by (simp add: loop_body_def assms(3))
  with assms(2) have e: "encode_loop depth rnd (self, cd, lf, n) = Inr (self, cd, lf, n)"
    by (simp add: encode_loop.simps)
  from iterates_invariant [OF assms(1)] have raw: "raw_file_data self = X" by simp
  from assms(3) have len: "int (length (lookup_table self)) = 256 - int (card (set X))"
    by (simp add: get_replacement_exhausted raw)
  have "X \<noteq> []"
  proof
    assume x: "X = []"
    with assms(4) have "lookup_table self0 = []" by simp
    moreover from assms(1) have "(self, cd, lf, n) = (self0\<lparr>raw_file_data := X\<rparr>, X, 0, 0)"
      unfolding x by (rule iterates_empty)
    ultimately show False using len x by simp
  qed
  then have "0 < card (set X)" by (simp add: card_gt_0_iff)
  with len have l: "length (lookup_table self) < 256" by linarith
  have "compress_binary depth rnd self0 X
      = Inr (of_nat (length (lookup_table self)) # cd
               @ concat (map (\<lambda>(key, v0, v1). [key, v0, v1]) (lookup_table self)),
             self)"
    unfolding compress_binary_def Let_def encode_loop_iterates [OF assms(1)] e
    by (simp add: to_bytes_def serialize_table_def l)
  moreover have "unat (of_nat (length (lookup_table self)) :: byte) = length (lookup_table self)"
    using l by (simp add: unat_of_nat)
  ultimately show ?thesis using b e l by simp
qed

lemma distinct_all_bytes: "distinct (map of_nat [0..<256] :: byte list)"
proof -
  have "inj_on (of_nat :: nat \<Rightarrow> byte) {0..<256}"
    by (rule inj_onI) (simp add: word_of_nat_eq_iff take_bit_nat_eq_self)
  then show ?thesis
    by (simp add: distinct_map del: upt_Suc)
qed

theorem table_exhausted_atomicity_example:
  "iterates 0 of_nat (init\<lparr>raw_file_data := map of_nat [0..<256]\<rparr>, map of_nat [0..<256], 0, 0)
     (init\<lparr>raw_file_data := map of_nat [0..<256]\<rparr>, map of_nat [0..<256], 0, 0)
   \<and> get_replacement 0 of_nat (init\<lparr>raw_file_data := map of_nat [0..<256]\<rparr>) 0
       = Inl TableExhausted
   \<and> compress_binary 0 of_nat init (map of_nat [0..<256])
       = Inr (0 # map of_nat [0..<256], init\<lparr>raw_file_data := map of_nat [0..<256]\<rparr>)"
proof -
  have g: "get_replacement 0 of_nat (init\<lparr>raw_file_data := map of_nat [0..<256]\<rparr>) 0
      = Inl TableExhausted"
    by (subst get_replacement.simps)
       (simp add: init_def distinct_remdups_id [OF distinct_all_bytes] del: upt_Suc)
  have x: "map of_nat [0..<256] \<noteq> ([] :: byte list) \<or> lookup_table init = []"
    by (simp add: init_def)
  have z: "(0 :: nat) \<noteq> 1" by simp
  from table_exhausted_atomicity [OF iterates.start z g x] g
    iterates.start [of 0 of_nat "(init\<lparr>raw_file_data := map of_nat [0..<256]\<rparr>, map of_nat [0..<256], 0, 0)"]
  show ?thesis
    by (simp add: init_def serialize_table_def del: upt_Suc)
qed

subsection \<open>An exhausted table of 256 entries\<close>

lemma byte_of_nat_eq_65: "k < 256 \<Longrightarrow> of_nat k = (65 :: byte) \<longleftrightarrow> k = 65"
proof
  assume k: "k < 256" and "of_nat k = (65 :: byte)"
  then have "unat (of_nat k :: byte) = unat (65 :: byte)" by simp
  with k show "k = 65" by (simp add: unat_of_nat)
qed simp

lemma set_stale_keys: "set stale_keys = of_nat ` ({0..<65} \<union> {66..<256})"
  unfolding stale_keys_def set_map set_append set_upt ..

lemma length_stale_keys: "length stale_keys = 255"
  unfolding stale_keys_def length_map length_append length_upt by simp

lemma stale_keys_not_65: "65 \<notin> set stale_keys"
proof
  assume "65 \<in> set stale_keys"
  then obtain k where k: "k \<in> {0..<65} \<union> {66..<256}" and e: "(65 :: byte) = of_nat k"
    unfolding set_stale_keys by (rule imageE)
  from k have "k < 256" "k \<noteq> 65" by auto
  with e show False
    using byte_of_nat_eq_65 [of k] by simp
qed

lemma distinct_stale_keys: "distinct stale_keys"
proof -
  have "inj_on (of_nat :: nat \<Rightarrow> byte) {0..<256}"
    by (rule inj_onI) (simp add: word_of_nat_eq_iff take_bit_nat_eq_self)
  then have "inj_on (of_nat :: nat \<Rightarrow> byte) (set ([0..<65] @ [66..<256]))"
    unfolding set_append set_upt by (rule inj_on_subset) auto
  moreover have "distinct ([0..<65] @ [66..<256])"
    unfolding distinct_append set_upt by auto
  ultimately show ?thesis
    unfolding stale_keys_def by (simp only: distinct_map simp_thms)
qed

text \<open>A call on \<open>AA\<close> that draws a byte \<open>c\<close> which is free adds the entry for \<open>c\<close>.\<close>

lemma compress_AA:
  assumes "c \<notin> fst ` set t" and "c \<noteq> 65" and "length t < 255"
  shows "compress_binary depth (\<lambda>n. c) \<lparr>lookup_table = t, raw_file_data = r\<rparr> [65, 65]
    = Inr (of_nat (Suc (length t)) # c # serialize_table (t @ [(c, 65, 65)]),
           \<lparr>lookup_table = t @ [(c, 65, 65)], raw_file_data = [65, 65]\<rparr>)"
proof -
  let ?self = "\<lparr>lookup_table = t, raw_file_data = [65, 65]\<rparr>"
  have g: "get_replacement depth (\<lambda>n. c) ?self 0 = Inr (c, 1)"
    using assms by (subst get_replacement.simps) (simp add: image_iff)
  have m: "max_pair (make_pairs [65, 65 :: byte]) = Inr ((65, 65), 1)"
    by (simp add: make_pairs_def max_pair_def)
  have b: "loop_body depth (\<lambda>n. c) (?self, [65, 65], 0, 0)
      = Continue (\<lparr>lookup_table = t @ [(c, 65, 65)], raw_file_data = [65, 65]\<rparr>, [c], 1, 1)"
    by (simp add: loop_body_def g m update_fresh [OF assms(1)])
  have e: "encode_loop depth (\<lambda>n. c) (?self, [65, 65], 0, 0)
      = Inr (\<lparr>lookup_table = t @ [(c, 65, 65)], raw_file_data = [65, 65]\<rparr>, [c], 1, 1)"
    by (subst encode_loop.simps, simp add: b, subst encode_loop.simps, simp)
  show ?thesis
    using assms(3) by (simp add: compress_binary_def e to_bytes_def)
qed

lemma compress_calls_AA:
  assumes "distinct ks" and "65 \<notin> set ks" and "set ks \<inter> fst ` set t = {}"
    and "length t + length ks \<le> 255"
  shows "map_option lookup_table
      (compress_calls depth \<lparr>lookup_table = t, raw_file_data = r\<rparr>
         (map (\<lambda>c. (\<lambda>n. c, [65, 65])) ks))
    = Some (t @ map (\<lambda>c. (c, 65, 65)) ks)"
  using assms
proof (induction ks arbitrary: t r)
  case Nil
  show ?case by simp
next
  case (Cons c ks)
  from Cons.prems have c: "c \<notin> fst ` set t" "c \<noteq> 65" "length t < 255" by auto
  have "map_option lookup_table
      (compress_calls depth \<lparr>lookup_table = t @ [(c, 65, 65)], raw_file_data = [65, 65]\<rparr>
         (map (\<lambda>c. (\<lambda>n. c, [65, 65])) ks))
    = Some ((t @ [(c, 65, 65)]) @ map (\<lambda>c. (c, 65, 65)) ks)"
    using Cons.prems by (intro Cons.IH) auto
  then show ?case
    by (simp add: compress_AA [OF c])
qed

text \<open>
  Claim C4. The claim fails on an object whose table has 256 entries, which calls of
  \<open>compress_binary\<close> produce because the table is never emptied (as for claim C8):
  255 calls on \<open>AA\<close> leave 255 entries, under every key but 65; a call on \<open>BC\<close> then finds
  \<open>255 \<noteq> 256 - 2\<close>, draws 65 and adds the entry number 256 in its loop, before it raises
  \<open>OverflowError\<close> on the entry count. In a call on the empty input after that,
  \<open>__get_replacement\<close> raises the exception for an exhausted table, since
  \<open>256 = 256 - 0\<close>; the loop is left, and \<open>compress_binary\<close> raises \<open>OverflowError\<close> to its
  caller instead of returning an artifact.
\<close>

theorem table_exhausted_overflow:
  "map_option lookup_table
      (compress_calls depth init (map (\<lambda>c. (\<lambda>n. c, [65, 65])) stale_keys))
     = Some stale_table
   \<and> length stale_table = 255
   \<and> encode_loop depth (\<lambda>n. 65)
        (\<lparr>lookup_table = stale_table, raw_file_data = [66, 67]\<rparr>, [66, 67], 0, 0)
     = Inr (\<lparr>lookup_table = stale_table @ [(65, 66, 67)], raw_file_data = [66, 67]\<rparr>, [65], 1, 1)
   \<and> compress_binary depth (\<lambda>n. 65) \<lparr>lookup_table = stale_table, raw_file_data = r\<rparr> [66, 67]
     = Inl OverflowError
   \<and> get_replacement depth rnd
        \<lparr>lookup_table = stale_table @ [(65, 66, 67)], raw_file_data = []\<rparr> 0
     = Inl TableExhausted
   \<and> loop_body depth rnd
        (\<lparr>lookup_table = stale_table @ [(65, 66, 67)], raw_file_data = []\<rparr>, [], 0, 0)
     = Break
   \<and> compress_binary depth rnd
        \<lparr>lookup_table = stale_table @ [(65, 66, 67)], raw_file_data = r\<rparr> []
     = Inl OverflowError"
proof -
  have len: "length stale_table = 255"
    by (simp add: stale_table_def length_stale_keys)
  have keys: "fst ` set stale_table = set stale_keys"
    by (force simp: stale_table_def)
  have 1: "map_option lookup_table
      (compress_calls depth init (map (\<lambda>c. (\<lambda>n. c, [65, 65])) stale_keys))
     = Some stale_table"
    unfolding init_def stale_table_def
    using compress_calls_AA [OF distinct_stale_keys stale_keys_not_65, of "[]" depth "[]"]
    by (simp add: length_stale_keys)
  let ?s = "\<lparr>lookup_table = stale_table, raw_file_data = [66, 67]\<rparr>"
  have f: "65 \<notin> fst ` set stale_table"
    unfolding keys by (rule stale_keys_not_65)
  have g: "get_replacement depth (\<lambda>n. 65) ?s 0 = Inr (65, 1)"
    using f by (subst get_replacement.simps) (simp add: len)
  have m: "max_pair (make_pairs [66, 67 :: byte]) = Inr ((66, 67), 1)"
    by (simp add: make_pairs_def max_pair_def)
  have b: "loop_body depth (\<lambda>n. 65) (?s, [66, 67], 0, 0)
      = Continue (\<lparr>lookup_table = stale_table @ [(65, 66, 67)], raw_file_data = [66, 67]\<rparr>,
                  [65], 1, 1)"
    by (simp add: loop_body_def g m update_fresh [OF f])
  have 2: "encode_loop depth (\<lambda>n. 65) (?s, [66, 67], 0, 0)
      = Inr (\<lparr>lookup_table = stale_table @ [(65, 66, 67)], raw_file_data = [66, 67]\<rparr>, [65], 1, 1)"
    by (subst encode_loop.simps, simp add: b, subst encode_loop.simps, simp)
  have 3: "compress_binary depth (\<lambda>n. 65) \<lparr>lookup_table = stale_table, raw_file_data = r\<rparr> [66, 67]
      = Inl OverflowError"
    by (simp add: compress_binary_def 2 to_bytes_def len)
  let ?t = "\<lparr>lookup_table = stale_table @ [(65, 66, 67)], raw_file_data = []\<rparr>"
  have 4: "get_replacement depth rnd ?t 0 = Inl TableExhausted"
    by (subst get_replacement.simps) (simp add: len)
  have 5: "loop_body depth rnd (?t, [], 0, 0) = Break"
    by (simp add: loop_body_def 4)
  have e: "encode_loop depth rnd (?t, [], 0, 0) = Inr (?t, [], 0, 0)"
    by (subst encode_loop.simps) (simp add: 5)
  have 6: "compress_binary depth rnd
        \<lparr>lookup_table = stale_table @ [(65, 66, 67)], raw_file_data = r\<rparr> [] = Inl OverflowError"
    by (simp add: compress_binary_def e to_bytes_def len)
  from 1 len 2 3 4 5 6 show ?thesis by blast
qed

subsection \<open>Round trip\<close>

lemma get_original_Suc:
  "get_original d b t = Inr bs \<Longrightarrow> get_original (Suc d) b t = Inr bs"
proof (induction d arbitrary: b bs)
  case 0
  then show ?case
    by (subst get_original.simps, subst (asm) get_original.simps)
       (auto split: option.splits)
next
  case (Suc d)
  show ?case
  proof (cases "map_of t b")
    case None
    with Suc.prems show ?thesis
      by (subst get_original.simps, subst (asm) get_original.simps) simp
  next
    case (Some p)
    obtain c0 c1 where p: "p = (c0, c1)" by (cases p)
    from Suc.prems Some obtain b0 b1 where
      g: "get_original d c0 t = Inr b0" "get_original d c1 t = Inr b1" and bs: "bs = b0 @ b1"
      by (subst (asm) get_original.simps) (auto simp: p split: sum.splits)
    from g(1) have "get_original (Suc d) c0 t = Inr b0" by (rule Suc.IH)
    moreover from g(2) have "get_original (Suc d) c1 t = Inr b1" by (rule Suc.IH)
    ultimately show ?thesis using Some bs
      by (subst get_original.simps) (simp add: p)
  qed
qed

lemma get_original_mono:
  assumes "get_original d b t = Inr bs" and "d \<le> d'"
  shows "get_original d' b t = Inr bs"
  using assms(2) by (induction rule: dec_induct) (simp_all add: assms(1) get_original_Suc)

lemma get_original_None: "map_of t b = None \<Longrightarrow> get_original d b t = Inr [b]"
  by (subst get_original.simps) simp

lemma get_original_Some_0: "map_of t b = Some q \<Longrightarrow> get_original 0 b t = Inl RecursionError"
  by (subst get_original.simps) (simp split: prod.splits)

lemma get_original_Some_Suc:
  "map_of t b = Some (c0, c1) \<Longrightarrow> get_original (Suc d) b t =
     (case get_original d c0 t of
        Inl e \<Rightarrow> Inl e
      | Inr b1 \<Rightarrow> (case get_original d c1 t of Inl e \<Rightarrow> Inl e | Inr b2 \<Rightarrow> Inr (b1 @ b2)))"
  by (subst get_original.simps) simp

lemma get_original_extend:
  assumes closed: "\<forall>e \<in> set t. fst (snd e) \<in> S \<union> fst ` set t \<and> snd (snd e) \<in> S \<union> fst ` set t"
    and fresh: "c \<notin> S \<union> fst ` set t"
  shows "b \<in> S \<union> fst ` set t \<Longrightarrow> get_original d b (t @ [(c, p)]) = get_original d b t"
proof (induction d arbitrary: b)
  case 0
  with fresh have "b \<noteq> c" by auto
  then have m: "map_of (t @ [(c, p)]) b = map_of t b"
    by (simp add: map_add_def split: option.splits)
  show ?case
  proof (cases "map_of t b")
    case None
    then show ?thesis
      using get_original_None [of t b 0] get_original_None [of "t @ [(c, p)]" b 0] m by metis
  next
    case (Some q)
    then show ?thesis
      using get_original_Some_0 [of t b q] get_original_Some_0 [of "t @ [(c, p)]" b q] m by metis
  qed
next
  case (Suc d)
  with fresh have "b \<noteq> c" by auto
  then have m: "map_of (t @ [(c, p)]) b = map_of t b"
    by (simp add: map_add_def split: option.splits)
  show ?case
  proof (cases "map_of t b")
    case None
    then show ?thesis
      using get_original_None [of t b "Suc d"] get_original_None [of "t @ [(c, p)]" b "Suc d"] m
      by metis
  next
    case (Some q)
    obtain c0 c1 where q: "q = (c0, c1)" by (cases q)
    from Some have "(b, c0, c1) \<in> set t" by (auto simp: q dest: map_of_SomeD)
    with closed have "c0 \<in> S \<union> fst ` set t" "c1 \<in> S \<union> fst ` set t" by force+
    then have i: "get_original d c0 (t @ [(c, p)]) = get_original d c0 t"
      "get_original d c1 (t @ [(c, p)]) = get_original d c1 t"
      by (simp_all add: Suc.IH)
    from Some m have "map_of t b = Some (c0, c1)" "map_of (t @ [(c, p)]) b = Some (c0, c1)"
      by (simp_all only: q)
    then show ?thesis
      by (simp only: get_original_Some_Suc i)
  qed
qed

lemma replace_concat_map:
  assumes "E' c = E a @ E b" and "\<forall>x \<in> set cd. E' x = E x"
  shows "concat (map E' (replace cd (a, b) c)) = concat (map E cd)"
  using assms
proof (induction cd "(a, b)" c rule: replace.induct)
  case (1 x y rest new)
  then show ?case using assms(1) by auto
qed simp_all

lemma encoder_invariant_init: "encoder_invariant X [] X"
proof -
  have g: "get_original 0 b [] = Inr [b]" for b
    by (subst get_original.simps) simp
  have "concat (map (\<lambda>b. [b]) X) = X" by (induction X) simp_all
  then show ?thesis by (simp add: encoder_invariant_def g)
qed

lemma encoder_invariant_step:
  assumes inv: "encoder_invariant X t cd"
    and fresh: "c \<notin> fst ` set t" "c \<notin> set X"
    and p: "p \<in> set (adjacent cd)"
  shows "encoder_invariant X (t @ [(c, p)]) (replace cd p c)"
proof -
  obtain a b where ab: "p = (a, b)" by (cases p)
  let ?S = "set X \<union> fst ` set t"
  let ?t' = "t @ [(c, p)]"
  from inv have dist: "distinct (map fst t)" and disj: "fst ` set t \<inter> set X = {}"
    and closed: "\<forall>e \<in> set t. fst (snd e) \<in> ?S \<and> snd (snd e) \<in> ?S"
    and cd: "set cd \<subseteq> ?S"
    and total: "\<forall>b \<in> ?S. \<exists>bs. get_original (length t) b t = Inr bs"
    and cat: "concat (map (\<lambda>b. projr (get_original (length t) b t)) cd) = X"
    by (simp_all add: encoder_invariant_def)
  from fresh have c: "c \<notin> ?S" by simp
  from p cd have a: "a \<in> ?S" and b: "b \<in> ?S"
    using set_adjacent [of a b cd] by (auto simp: ab)
  have old: "get_original (Suc (length t)) x ?t' = get_original (length t) x t" if "x \<in> ?S" for x
  proof -
    from total that obtain bs where g: "get_original (length t) x t = Inr bs" by blast
    then have "get_original (Suc (length t)) x t = Inr bs" by (rule get_original_Suc)
    with g get_original_extend [OF closed c that, of "Suc (length t)" p] show ?thesis by simp
  qed
  from total a b obtain ea eb where ea: "get_original (length t) a t = Inr ea"
    and eb: "get_original (length t) b t = Inr eb" by blast
  from fresh(1) have "map_of t c = None" by (simp add: map_of_eq_None_iff)
  then have mc: "map_of ?t' c = Some (a, b)"
    by (simp add: ab map_add_def)
  have new: "get_original (Suc (length t)) c ?t' = Inr (ea @ eb)"
    unfolding get_original_Some_Suc [OF mc]
      get_original_extend [OF closed c a] get_original_extend [OF closed c b] ea eb
    by simp
  have 1: "distinct (map fst ?t')" using dist fresh(1) by simp
  have 2: "fst ` set ?t' \<inter> set X = {}" using disj fresh(2) by auto
  have 3: "\<forall>e \<in> set ?t'. fst (snd e) \<in> set X \<union> fst ` set ?t' \<and> snd (snd e) \<in> set X \<union> fst ` set ?t'"
    using closed a b by (auto simp: ab)
  have 4: "set (replace cd p c) \<subseteq> set X \<union> fst ` set ?t'"
    using set_replace [of cd p c] cd by auto
  have 5: "\<forall>x \<in> set X \<union> fst ` set ?t'. \<exists>bs. get_original (length ?t') x ?t' = Inr bs"
  proof
    fix x assume "x \<in> set X \<union> fst ` set ?t'"
    then consider "x = c" | "x \<in> ?S" by auto
    then show "\<exists>bs. get_original (length ?t') x ?t' = Inr bs"
    proof cases
      case 1
      with new show ?thesis by simp
    next
      case 2
      with old [OF 2] total show ?thesis by simp
    qed
  qed
  have "concat (map (\<lambda>x. projr (get_original (length ?t') x ?t')) (replace cd (a, b) c))
      = concat (map (\<lambda>x. projr (get_original (length t) x t)) cd)"
  proof (rule replace_concat_map)
    show "projr (get_original (length ?t') c ?t')
        = projr (get_original (length t) a t) @ projr (get_original (length t) b t)"
      using new ea eb by simp
    show "\<forall>x \<in> set cd. projr (get_original (length ?t') x ?t') = projr (get_original (length t) x t)"
    proof
      fix x assume "x \<in> set cd"
      with cd have "x \<in> ?S" by blast
      from old [OF this] show "projr (get_original (length ?t') x ?t')
          = projr (get_original (length t) x t)"
        by simp
    qed
  qed
  with cat have 6: "concat (map (\<lambda>x. projr (get_original (length ?t') x ?t')) (replace cd p c)) = X"
    by (simp add: ab)
  from 1 2 3 4 5 6 show ?thesis
    unfolding encoder_invariant_def by blast
qed

lemma iterates_encoder_invariant:
  assumes "iterates depth rnd (self0\<lparr>raw_file_data := X\<rparr>, X, lf0, n0) (self, cd, lf, n)"
    and "lookup_table self0 = []"
  shows "encoder_invariant X (lookup_table self) cd"
  using assms(1)
proof (induction "(self, cd, lf, n)" arbitrary: self cd lf n rule: iterates.induct)
  case start
  show ?case by (simp add: assms(2) encoder_invariant_init)
next
  case (step self' cd' lf' n')
  from step.hyps(4) obtain c p where
    m: "max_pair (make_pairs cd') = Inr (p, lf)"
    and s: "self = self'\<lparr>lookup_table := lookup_table self' @ [(c, p)]\<rparr>"
    and r: "cd = replace cd' p c"
    and f: "c \<notin> fst ` set (lookup_table self')" "c \<notin> set (raw_file_data self')"
    by (rule loop_body_Continue)
  from iterates_invariant [OF step.hyps(1)] have raw: "raw_file_data self' = X" by simp
  from max_pair_mem [OF m] have p: "p \<in> set (adjacent cd')"
    by (simp add: fst_set_make_pairs)
  from step.hyps(2) have "encoder_invariant X (lookup_table self') cd'" by simp
  from encoder_invariant_step [OF this f(1) f(2) [unfolded raw] p] show ?case
    by (simp add: s r)
qed

lemma encode_loop_result_iterates:
  "encode_loop depth rnd st0 = Inr st \<Longrightarrow> iterates depth rnd st0 st"
proof (induction depth rnd st0 rule: encode_loop.induct)
  case (1 depth rnd self cd lf n)
  show ?case
  proof (cases "lf = 1")
    case True
    with "1.prems" show ?thesis by (simp add: encode_loop.simps iterates.start)
  next
    case False
    show ?thesis
    proof (cases "loop_body depth rnd (self, cd, lf, n)")
      case Break
      with False "1.prems" show ?thesis by (simp add: encode_loop.simps iterates.start)
    next
      case (Raise e)
      with False "1.prems" show ?thesis by (simp add: encode_loop.simps)
    next
      case (Continue st1)
      with False "1.prems" have "encode_loop depth rnd st1 = Inr st"
        by (simp add: encode_loop.simps)
      from "1.IH" [OF False Continue this] have "iterates depth rnd st1 st" .
      with Continue False show ?thesis by (intro iterates_front)
    qed
  qed
qed

text \<open>The loop raises nothing when it starts with a buffer of at least two bytes.\<close>

lemma length_adjacent: "length (adjacent data) = length data - 1"
  by (induction data rule: adjacent.induct) simp_all

lemma replace_nonempty: "data \<noteq> [] \<Longrightarrow> replace data old new \<noteq> []"
  by (induction data old new rule: replace.induct) auto

lemma length_replace_ge2:
  assumes "3 \<le> length data"
  shows "2 \<le> length (replace data old new)"
proof -
  from assms obtain a b c rest where d: "data = a # b # c # rest"
    by (cases data rule: adjacent.cases) (auto simp: Suc_le_eq numeral_3_eq_3 neq_Nil_conv)
  have "replace (c # rest) old new \<noteq> []" "replace (b # c # rest) old new \<noteq> []"
    by (rule replace_nonempty, simp)+
  then show ?thesis
    by (cases "replace (c # rest) old new"; cases "replace (b # c # rest) old new")
       (auto simp: d)
qed

lemma max_pair_loop_Some:
  "max_pair_loop items mf (Some k) = (f, r) \<Longrightarrow> r \<noteq> None"
  by (induction items mf "Some k" arbitrary: k rule: max_pair_loop.induct)
     (auto split: if_splits)

lemma max_pair_Inl: "max_pair data = Inl e \<Longrightarrow> data = []"
proof (cases data)
  case Nil
  then show ?thesis by simp
next
  case (Cons x items)
  obtain k c where x: "x = (k, c)" by (cases x)
  assume "max_pair data = Inl e"
  then have "snd (max_pair_loop items c (Some k)) = None"
    by (auto simp: max_pair_def Cons x split: prod.splits option.splits)
  with max_pair_loop_Some [of items c k] show ?thesis
    by (cases "max_pair_loop items c (Some k)") auto
qed

lemma encode_loop_returns:
  "(lf \<noteq> 1 \<longrightarrow> 2 \<le> length cd) \<Longrightarrow> \<exists>st. encode_loop depth rnd (self, cd, lf, n) = Inr st"
proof (induction depth rnd "(self, cd, lf, n)" arbitrary: self cd lf n rule: encode_loop.induct)
  case (1 depth rnd self cd lf n)
  show ?case
  proof (cases "lf = 1")
    case True
    then show ?thesis by (simp add: encode_loop.simps)
  next
    case False
    with "1.prems" have len: "2 \<le> length cd" by simp
    show ?thesis
    proof (cases "loop_body depth rnd (self, cd, lf, n)")
      case Break
      with False show ?thesis by (simp add: encode_loop.simps)
    next
      case (Raise e)
      then have "max_pair (make_pairs cd) = Inl e"
        by (auto simp: loop_body_def split: sum.splits prod.splits)
      then have "make_pairs cd = []" by (rule max_pair_Inl)
      then have "set (adjacent cd) = {}"
        using fst_set_make_pairs [of cd] by simp
      with len show ?thesis
        using length_adjacent [of cd] by simp
    next
      case (Continue st1)
      obtain self' cd' lf' n' where st1: "st1 = (self', cd', lf', n')" by (cases st1)
      from Continue [unfolded st1] obtain c p where
        m: "max_pair (make_pairs cd) = Inr (p, lf')" and r: "cd' = replace cd p c"
        by (rule loop_body_Continue)
      have "2 \<le> length cd'" if "lf' \<noteq> 1"
      proof -
        from max_pair_last_max [OF m] have "(p, lf') \<in> set (make_pairs cd)" by auto
        from make_pairs_count [OF this] have c: "lf' = count_list (adjacent cd) p" by simp
        from max_pair_mem [OF m] have "p \<in> set (adjacent cd)"
          by (simp add: fst_set_make_pairs)
        then have "0 < lf'"
          unfolding c using count_list_0_iff [of "adjacent cd" p] by (cases "count_list (adjacent cd) p") auto
        with that have "2 \<le> lf'" by simp
        also have "lf' \<le> length (adjacent cd)" unfolding c by (rule count_le_length)
        finally have "3 \<le> length cd" by (simp add: length_adjacent)
        then show ?thesis unfolding r by (rule length_replace_ge2)
      qed
      then have "\<exists>st. encode_loop depth rnd (self', cd', lf', n') = Inr st"
        by (intro "1.hyps" [OF False Continue [unfolded st1]]) simp
      with False Continue show ?thesis
        by (subst encode_loop.simps) (simp add: st1)
    qed
  qed
qed

lemma table_fits_byte:
  assumes "distinct (map fst t)" and "fst ` set t \<inter> set X = {}" and "X \<noteq> []"
  shows "length (t :: table) < 256"
proof -
  have "card (fst ` set t) = length t"
    using distinct_card [OF assms(1)] by simp
  moreover have "0 < card (set X)" using assms(3) by (simp add: card_gt_0_iff)
  moreover have "card (fst ` set t \<union> set X) = card (fst ` set t) + card (set X)"
    using assms(2) by (intro card_Un_disjoint) simp_all
  moreover have "card (fst ` set t \<union> set X) \<le> card (UNIV :: byte set)"
    by (rule card_mono) simp_all
  moreover have "card (UNIV :: byte set) = 256" by (simp add: card_word)
  ultimately show ?thesis by linarith
qed

text \<open>
  On a fresh object every artifact that \<open>compress_binary\<close> returns decompresses to the
  input, for every sequence of random bytes and every recursion limit of the encoder,
  as soon as the recursion limit of the decoder is at least 255; and \<open>compress_binary\<close>
  returns an artifact for every input of at least two bytes.
\<close>

theorem round_trip:
  "(compress_binary depth rnd init X = Inr (art, s) \<and> 255 \<le> d
      \<longrightarrow> decompress_binary d art = Inr X)
   \<and> (2 \<le> length X \<longrightarrow> (\<exists>art s. compress_binary depth rnd init X = Inr (art, s)))"
proof (intro conjI impI)
  let ?st0 = "(init\<lparr>raw_file_data := X\<rparr>, X, 0 :: nat, 0 :: nat)"
  {
    assume a: "compress_binary depth rnd init X = Inr (art, s) \<and> 255 \<le> d"
    then obtain cd lf n where e: "encode_loop depth rnd ?st0 = Inr (s, cd, lf, n)"
      and l: "length (lookup_table s) < 256"
      and art: "art = of_nat (length (lookup_table s)) # cd @ serialize_table (lookup_table s)"
      by (auto simp: compress_binary_def to_bytes_def Let_def split: sum.splits prod.splits if_splits)
    from e have it: "iterates depth rnd ?st0 (s, cd, lf, n)"
      by (rule encode_loop_result_iterates)
    have "encoder_invariant X (lookup_table s) cd"
      by (rule iterates_encoder_invariant [OF it]) (simp add: init_def)
    then have dist: "distinct (map fst (lookup_table s))"
      and cd: "set cd \<subseteq> set X \<union> fst ` set (lookup_table s)"
      and total: "\<forall>b \<in> set X \<union> fst ` set (lookup_table s).
          \<exists>bs. get_original (length (lookup_table s)) b (lookup_table s) = Inr bs"
      and cat: "concat (map (\<lambda>b. projr (get_original (length (lookup_table s)) b (lookup_table s))) cd) = X"
      by (simp_all add: encoder_invariant_def)
    let ?E = "\<lambda>b. projr (get_original (length (lookup_table s)) b (lookup_table s))"
    have "list_all2 (\<lambda>b bs. get_original d b (lookup_table s) = Inr bs) cd (map ?E cd)"
      unfolding list_all2_map2
    proof (rule list_all2_same [THEN iffD2], rule ballI)
      fix b assume "b \<in> set cd"
      with cd total obtain bs where
        g: "get_original (length (lookup_table s)) b (lookup_table s) = Inr bs" by blast
      from l a have "length (lookup_table s) \<le> d" by simp
      from get_original_mono [OF g this] g
      show "get_original d b (lookup_table s) = Inr (?E b)" by simp
    qed
    with cat have "\<exists>bss. list_all2 (\<lambda>b bs. get_original d b (lookup_table s) = Inr bs) cd bss
        \<and> X = concat bss"
      by (intro exI [of _ "map ?E cd"]) simp
    then show "decompress_binary d art = Inr X"
      unfolding art by (simp add: decompress_binary_serialized [OF l dist])
  }
  assume len: "2 \<le> length X"
  then have "\<exists>st. encode_loop depth rnd ?st0 = Inr st"
    by (intro encode_loop_returns) simp
  then obtain s cd lf n where e: "encode_loop depth rnd ?st0 = Inr (s, cd, lf, n)"
    by (metis prod_cases4)
  from e have it: "iterates depth rnd ?st0 (s, cd, lf, n)"
    by (rule encode_loop_result_iterates)
  have "encoder_invariant X (lookup_table s) cd"
    by (rule iterates_encoder_invariant [OF it]) (simp add: init_def)
  then have "distinct (map fst (lookup_table s))" "fst ` set (lookup_table s) \<inter> set X = {}"
    by (simp_all add: encoder_invariant_def)
  moreover from len have "X \<noteq> []" by auto
  ultimately have "length (lookup_table s) < 256" by (rule table_fits_byte)
  with e show "\<exists>art s. compress_binary depth rnd init X = Inr (art, s)"
    by (simp add: compress_binary_def to_bytes_def)
qed

text \<open>
  Claim C1. The round trip fails on the inputs of length 0 and 1: \<open>compress_binary\<close>
  raises \<open>UnboundLocalError\<close> there (as for claim C2), so there is no artifact that
  \<open>decompress_binary\<close> could turn back into the input. By \<open>round_trip\<close> these are the only
  inputs on which a fresh object fails.
\<close>

theorem round_trip_fails_on_short_input:
  "(\<nexists>art s. compress_binary depth rnd init [] = Inr (art, s)
        \<and> decompress_binary d art = Inr [])
   \<and> (\<nexists>art s. compress_binary depth (\<lambda>n. x + 1) init [x] = Inr (art, s)
        \<and> decompress_binary d art = Inr [x])"
proof -
  have "compress_binary depth rnd init [] = Inl UnboundLocalError"
    by (simp add: compress_binary_def init_def encode_loop.simps loop_body_def make_pairs_def
          get_replacement.simps max_pair_def)
  moreover have "compress_binary depth (\<lambda>n. x + 1) init [x] = Inl UnboundLocalError"
    by (simp add: compress_binary_def init_def encode_loop.simps loop_body_def make_pairs_def
          get_replacement.simps max_pair_def)
  ultimately show ?thesis by simp
qed

end
